theory Spec2Isabelle
  imports Main "HOL-Library.AList" "HOL-Library.Multiset" "HOL-Library.Sublist"
begin

section \<open>Strings and insertion-ordered dictionaries\<close>

text \<open>
  Python's \<open>str.lower()\<close>, restricted to the ASCII letters: a code point between
  \<open>A\<close> (65) and \<open>Z\<close> (90) moves up by 32, every other character stays.
\<close>

definition lower_char :: "char \<Rightarrow> char" where
  "lower_char c =
     (let n = (of_char c :: nat) in if 65 \<le> n \<and> n \<le> 90 then char_of (n + 32) else c)"

definition lower :: "string \<Rightarrow> string" where
  "lower s = map lower_char s"

text \<open>\<open>".".join(parts)\<close>\<close>

fun join_dot :: "string list \<Rightarrow> string" where
  "join_dot [] = []"
| "join_dot [p] = p"
| "join_dot (p # q # ps) = p @ ''.'' @ join_dot (q # ps)"

text \<open>\<open>s.rsplit(".", 1)\<close>: one piece when there is no dot, otherwise the text before
  the last dot and the text after it.\<close>

definition rsplit_dot :: "string \<Rightarrow> string list" where
  "rsplit_dot s =
     (if CHR ''.'' \<in> set s
      then [rev (tl (dropWhile (\<lambda>c. c \<noteq> CHR ''.'') (rev s))),
            rev (takeWhile (\<lambda>c. c \<noteq> CHR ''.'') (rev s))]
      else [s])"

text \<open>\<open>s.split(".")[-1]\<close>: the text after the last dot (all of \<open>s\<close> without a dot).\<close>

definition split_dot_last :: "string \<Rightarrow> string" where
  "split_dot_last s = rev (takeWhile (\<lambda>c. c \<noteq> CHR ''.'') (rev s))"

text \<open>Truthiness of an \<open>Optional[str]\<close>: \<open>None\<close> and the empty string are false.\<close>

fun truthy :: "string option \<Rightarrow> bool" where
  "truthy None = False"
| "truthy (Some s) = (s \<noteq> [])"

text \<open>
  A Python \<open>dict\<close> keeps its keys in insertion order, and the execution order below
  iterates over it, so a dictionary is an association list. \<open>k in d\<close> is
  \<open>dict_contains\<close>, \<open>d[k] = v\<close> is \<open>AList.update\<close> (a present key keeps its position,
  a new key goes to the end), \<open>d.get(k)\<close> is \<open>map_of\<close>. The keys of a dictionary are
  pairwise different: \<open>dict_ok\<close>.
\<close>

type_synonym 'v dict = "(string \<times> 'v) list"

definition dict_contains :: "'v dict \<Rightarrow> string \<Rightarrow> bool" where
  "dict_contains d k = (k \<in> set (map fst d))"

definition dict_ok :: "'v dict \<Rightarrow> bool" where
  "dict_ok d = distinct (map fst d)"

definition setdefault :: "string \<Rightarrow> 'v \<Rightarrow> 'v dict \<Rightarrow> 'v dict" where
  "setdefault k v d = (if dict_contains d k then d else AList.update k v d)"

section \<open>The data model (models.py)\<close>

datatype EdgeType = TABLE_TO_TABLE | COLUMN_TO_COLUMN

fun edge_type_value :: "EdgeType \<Rightarrow> string" where
  "edge_type_value TABLE_TO_TABLE = ''table_to_table''"
| "edge_type_value COLUMN_TO_COLUMN = ''column_to_column''"

record Table =
  t_name :: string
  t_schema_name :: "string option"
  t_database :: "string option"
  t_source_file :: "string option"
  t_is_cte :: bool

definition table_qualified_name :: "Table \<Rightarrow> string" where
  "table_qualified_name t =
     join_dot ((if truthy (t_database t) then [the (t_database t)] else [])
             @ (if truthy (t_schema_name t) then [the (t_schema_name t)] else [])
             @ [t_name t])"

text \<open>\<open>Table.__eq__\<close>\<close>

definition table_eq :: "Table \<Rightarrow> Table \<Rightarrow> bool" where
  "table_eq a b = (lower (table_qualified_name a) = lower (table_qualified_name b))"

record Column =
  c_name :: string
  c_table :: "Table option"

definition column_qualified_name :: "Column \<Rightarrow> string" where
  "column_qualified_name c =
     (case c_table c of
        Some t \<Rightarrow> table_qualified_name t @ ''.'' @ c_name c
      | None \<Rightarrow> c_name c)"

record LineageEdge =
  e_source :: string
  e_target :: string
  e_edge_type :: EdgeType
  e_expression :: "string option"
  e_source_file :: "string option"

text \<open>The tuple hashed by \<open>LineageEdge.__hash__\<close> and compared by \<open>__eq__\<close>.\<close>

definition edge_key :: "LineageEdge \<Rightarrow> string \<times> string \<times> EdgeType" where
  "edge_key e = (lower (e_source e), lower (e_target e), e_edge_type e)"

definition edge_eq :: "LineageEdge \<Rightarrow> LineageEdge \<Rightarrow> bool" where
  "edge_eq a b =
     (lower (e_source a) = lower (e_source b)
      \<and> lower (e_target a) = lower (e_target b)
      \<and> e_edge_type a = e_edge_type b)"

record TableNode =
  tn_id :: string
  tn_name :: string
  tn_schema_name :: "string option"
  tn_database :: "string option"
  tn_source_file :: "string option"
  tn_is_cte :: bool
  tn_node_type :: string

record ColumnNode =
  cn_id :: string
  cn_name :: string
  cn_table_id :: string

record LineageGraph =
  tables :: "TableNode dict"
  columns :: "ColumnNode dict"
  edges :: "LineageEdge list"

definition empty_graph :: LineageGraph where
  "empty_graph = \<lparr>tables = [], columns = [], edges = []\<rparr>"

text \<open>The methods mutate the graph; the model returns the new graph, and the node id
  where the method returns one.\<close>

definition add_table :: "LineageGraph \<Rightarrow> Table \<Rightarrow> string \<Rightarrow> string \<times> LineageGraph" where
  "add_table g t node_type =
     (let node_id = lower (table_qualified_name t) in
      if \<not> dict_contains (tables g) node_id
      then (node_id,
            g\<lparr>tables := AList.update node_id
                 \<lparr>tn_id = node_id, tn_name = t_name t, tn_schema_name = t_schema_name t,
                  tn_database = t_database t, tn_source_file = t_source_file t,
                  tn_is_cte = t_is_cte t, tn_node_type = node_type\<rparr> (tables g)\<rparr>)
      else (node_id, g))"

definition add_column :: "LineageGraph \<Rightarrow> Column \<Rightarrow> string \<times> LineageGraph" where
  "add_column g c =
     (let node_id = lower (column_qualified_name c);
          table_id = (case c_table c of Some t \<Rightarrow> lower (table_qualified_name t) | None \<Rightarrow> [])
      in
      if \<not> dict_contains (columns g) node_id
      then (node_id,
            g\<lparr>columns := AList.update node_id
                 \<lparr>cn_id = node_id, cn_name = c_name c, cn_table_id = table_id\<rparr> (columns g)\<rparr>)
      else (node_id, g))"

text \<open>\<open>edge not in self.edges\<close> compares with \<open>__eq__\<close>, element by element.\<close>

definition edge_in :: "LineageEdge \<Rightarrow> LineageEdge list \<Rightarrow> bool" where
  "edge_in e es = (\<exists>x \<in> set es. edge_eq x e)"

definition add_edge :: "LineageGraph \<Rightarrow> LineageEdge \<Rightarrow> LineageGraph" where
  "add_edge g e = (if \<not> edge_in e (edges g) then g\<lparr>edges := edges g @ [e]\<rparr> else g)"

text \<open>
  \<open>merge\<close>: three loops over the other graph. In \<open>g.merge(g)\<close> the loops read the
  dictionaries they write; the writes are guarded by \<open>not in\<close>, so none happens while
  a dictionary is read from, and reading the other graph's value at the start is what
  the loops see.
\<close>

definition merge_tables :: "TableNode dict \<Rightarrow> TableNode dict \<Rightarrow> TableNode dict" where
  "merge_tables self_tables other_tables =
     fold (\<lambda>(table_id, table_node) d.
             if \<not> dict_contains d table_id then AList.update table_id table_node d else d)
          other_tables self_tables"

definition merge_columns :: "ColumnNode dict \<Rightarrow> ColumnNode dict \<Rightarrow> ColumnNode dict" where
  "merge_columns self_columns other_columns =
     fold (\<lambda>(col_id, col_node) d.
             if \<not> dict_contains d col_id then AList.update col_id col_node d else d)
          other_columns self_columns"

definition merge :: "LineageGraph \<Rightarrow> LineageGraph \<Rightarrow> LineageGraph" where
  "merge g other =
     fold (\<lambda>edge g'. add_edge g' edge) (edges other)
       (g\<lparr>tables := merge_tables (tables g) (tables other),
          columns := merge_columns (columns g) (columns other)\<rparr>)"

definition get_upstream :: "LineageGraph \<Rightarrow> string \<Rightarrow> string list" where
  "get_upstream g node_id =
     map e_source (filter (\<lambda>e. lower (e_target e) = lower node_id) (edges g))"

definition get_downstream :: "LineageGraph \<Rightarrow> string \<Rightarrow> string list" where
  "get_downstream g node_id =
     map e_target (filter (\<lambda>e. lower (e_source e) = lower node_id) (edges g))"

text \<open>A sequence of mutating calls on one graph.\<close>

datatype graph_op =
    Op_add_table Table string
  | Op_add_column Column
  | Op_add_edge LineageEdge
  | Op_merge LineageGraph

fun apply_op :: "LineageGraph \<Rightarrow> graph_op \<Rightarrow> LineageGraph" where
  "apply_op g (Op_add_table t node_type) = snd (add_table g t node_type)"
| "apply_op g (Op_add_column c) = snd (add_column g c)"
| "apply_op g (Op_add_edge e) = add_edge g e"
| "apply_op g (Op_merge other) = merge g other"

definition run_ops :: "LineageGraph \<Rightarrow> graph_op list \<Rightarrow> LineageGraph" where
  "run_ops g ops = fold (\<lambda>op g'. apply_op g' op) ops g"

text \<open>The stored edge with a given dedup key, the first one in list order.\<close>

definition find_edge :: "LineageGraph \<Rightarrow> string \<times> string \<times> EdgeType \<Rightarrow> LineageEdge option" where
  "find_edge g k = find (\<lambda>e. edge_key e = k) (edges g)"

section \<open>Execution order (resolver.py, \<open>get_execution_order\<close>)\<close>

datatype py_error = KeyError string

text \<open>
  A Python \<open>set\<close> of strings is kept as the list of its elements in insertion order,
  without repetition. The order in which \<open>for neighbor in adj[node]\<close> visits a set is not
  fixed by the language; the functions below take it as the parameter \<open>set_iter\<close>, which
  turns the stored list into the visiting order. \<open>set_iter_ok\<close> says that it visits
  every element once.
\<close>

definition set_add :: "string \<Rightarrow> string list \<Rightarrow> string list" where
  "set_add x s = (if x \<in> set s then s else s @ [x])"

definition set_iter_ok :: "(string list \<Rightarrow> string list) \<Rightarrow> bool" where
  "set_iter_ok set_iter = (\<forall>s. mset (set_iter s) = mset s)"

text \<open>First loop: every table id gets an empty successor set and in-degree 0.\<close>

definition build_nodes :: "TableNode dict \<Rightarrow> (string list) dict \<times> int dict" where
  "build_nodes ts =
     fold (\<lambda>(table_id, table_node) (adj, in_degree).
             (setdefault table_id [] adj, setdefault table_id 0 in_degree))
          ts ([], [])"

text \<open>Second loop, one edge. The test \<open>src in adj\<close> and the read \<open>adj[src]\<close> are the
  one \<open>case\<close> on \<open>map_of adj src\<close>.\<close>

definition build_edge ::
  "LineageEdge \<Rightarrow> (string list) dict \<times> int dict \<Rightarrow> (string list) dict \<times> int dict" where
  "build_edge edge = (\<lambda>(adj, in_degree).
     if edge_type_value (e_edge_type edge) = ''table_to_table''
     then (let src = lower (e_source edge); tgt = lower (e_target edge) in
           case map_of adj src of
             Some targets \<Rightarrow>
               if dict_contains in_degree tgt
               then (AList.update src (set_add tgt targets) adj,
                     AList.update tgt
                       ((case map_of in_degree tgt of Some d \<Rightarrow> d | None \<Rightarrow> 0) + 1) in_degree)
               else (adj, in_degree)
           | None \<Rightarrow> (adj, in_degree))
     else (adj, in_degree))"

definition build_graph :: "LineageGraph \<Rightarrow> (string list) dict \<times> int dict" where
  "build_graph g = fold build_edge (edges g) (build_nodes (tables g))"

text \<open>The inner \<open>for\<close> loop of Kahn's algorithm; \<open>in_degree[neighbor] -= 1\<close> raises
  \<open>KeyError\<close> on a missing key.\<close>

fun relax :: "string list \<Rightarrow> int dict \<times> string list \<Rightarrow> py_error + (int dict \<times> string list)" where
  "relax [] (in_degree, queue) = Inr (in_degree, queue)"
| "relax (neighbor # rest) (in_degree, queue) =
     (case map_of in_degree neighbor of
        None \<Rightarrow> Inl (KeyError neighbor)
      | Some d \<Rightarrow>
          relax rest (AList.update neighbor (d - 1) in_degree,
                      if d - 1 = 0 then queue @ [neighbor] else queue))"

text \<open>\<open>adj.get(node, [])\<close>, in visiting order.\<close>

definition neighbors ::
  "(string list \<Rightarrow> string list) \<Rightarrow> (string list) dict \<Rightarrow> string \<Rightarrow> string list" where
  "neighbors set_iter adj node = (case map_of adj node of Some s \<Rightarrow> set_iter s | None \<Rightarrow> [])"

definition positive_count :: "int dict \<Rightarrow> nat" where
  "positive_count in_degree = length (filter (\<lambda>(k, d). 1 \<le> d) in_degree)"

text \<open>
  The \<open>while queue\<close> loop. It ends on every input: a node enters the queue only when
  its in-degree drops from 1 to 0, so the length of the queue plus the number of
  entries with a positive in-degree goes down with every node taken out.
\<close>

function kahn ::
  "(string list \<Rightarrow> string list) \<Rightarrow> (string list) dict \<Rightarrow> int dict \<Rightarrow> string list
     \<Rightarrow> string list \<Rightarrow> py_error + string list" where
  "kahn set_iter adj in_degree [] order = Inr order"
| "kahn set_iter adj in_degree (node # queue) order =
     (case relax (neighbors set_iter adj node) (in_degree, queue) of
        Inl err \<Rightarrow> Inl err
      | Inr (in_degree', queue') \<Rightarrow> kahn set_iter adj in_degree' queue' (order @ [node]))"
  by pat_completeness auto
termination
proof (relation "measure (\<lambda>(set_iter, adj, in_degree, queue, order).
                   length queue + positive_count in_degree)")
  show "wf (measure (\<lambda>(set_iter, adj, in_degree, queue, order).
              length queue + positive_count in_degree))"
    by simp
next
  fix set_iter :: "string list \<Rightarrow> string list" and adj :: "(string list) dict"
    and in_degree :: "int dict" and node :: string and queue order :: "string list"
    and x2 :: "int dict \<times> string list" and in_degree' :: "int dict" and queue' :: "string list"
  assume r: "relax (neighbors set_iter adj node) (in_degree, queue) = Inr x2"
    and x2: "(in_degree', queue') = x2"
  have upd: "positive_count (AList.update k (d - 1) deg) + (if d - 1 = 0 then 1 else 0)
               \<le> positive_count deg"
    if "map_of deg k = Some d" for k d and deg :: "int dict"
    using that unfolding positive_count_def
    by (induction deg) (auto split: if_splits)
  have "length q' + positive_count deg' \<le> length q + positive_count deg"
    if "relax ns (deg, q) = Inr (deg', q')" for ns deg q deg' q'
    using that
  proof (induction ns arbitrary: deg q)
    case Nil
    then show ?case by simp
  next
    case (Cons n ns)
    then obtain d where d: "map_of deg n = Some d"
      by (cases "map_of deg n") auto
    let ?deg = "AList.update n (d - 1) deg"
    let ?q = "if d - 1 = 0 then q @ [n] else q"
    from Cons.prems d have "relax ns (?deg, ?q) = Inr (deg', q')" by simp
    then have "length q' + positive_count deg' \<le> length ?q + positive_count ?deg"
      by (rule Cons.IH)
    also have "\<dots> \<le> length q + positive_count deg"
      using upd [OF d] by (simp split: if_splits)
    finally show ?case .
  qed
  from this [of "neighbors set_iter adj node" in_degree queue in_degree' queue'] r x2
  show "((set_iter, adj, in_degree', queue', order @ [node]),
         (set_iter, adj, in_degree, node # queue, order))
          \<in> measure (\<lambda>(set_iter, adj, in_degree, queue, order).
                length queue + positive_count in_degree)"
    by simp
qed

definition get_execution_order ::
  "(string list \<Rightarrow> string list) \<Rightarrow> LineageGraph \<Rightarrow> py_error + string list" where
  "get_execution_order set_iter g =
     (case build_graph g of (adj, in_degree) \<Rightarrow>
        (case kahn set_iter adj in_degree
                (map fst (filter (\<lambda>(node, deg). deg = 0) in_degree)) [] of
           Inl err \<Rightarrow> Inl err
         | Inr order \<Rightarrow>
             Inr (order @ filter (\<lambda>t. t \<notin> set order) (map fst (tables g)))))"

text \<open>\<open>order.index(x)\<close> for an \<open>x\<close> that occurs in \<open>order\<close>; the length otherwise.\<close>

fun index_of :: "string list \<Rightarrow> string \<Rightarrow> nat" where
  "index_of [] x = 0"
| "index_of (y # ys) x = (if y = x then 0 else Suc (index_of ys x))"

text \<open>
  The table-to-table dependency relation of a graph, on the registered table ids: the
  pairs that the second loop of \<open>get_execution_order\<close> accepts.
\<close>

definition tt_edges :: "LineageGraph \<Rightarrow> (string \<times> string) set" where
  "tt_edges g =
     {(lower (e_source e), lower (e_target e)) | e.
        e \<in> set (edges g) \<and> e_edge_type e = TABLE_TO_TABLE
        \<and> lower (e_source e) \<in> set (map fst (tables g))
        \<and> lower (e_target e) \<in> set (map fst (tables g))}"

section \<open>Statement trees (the sqlglot expressions the extractor walks)\<close>

text \<open>
  The parser is an outside library; the extractor reads its trees through \<open>isinstance\<close>,
  \<open>parent\<close>, \<open>this\<close>, \<open>expressions\<close>, \<open>name\<close>, \<open>db\<close>, \<open>catalog\<close>, \<open>alias\<close>, \<open>table\<close>,
  \<open>args.get("kind")\<close>, \<open>find\<close> and \<open>find_all\<close>. A tree is
  \<^item> a table reference with its name, db, catalog and alias texts (empty when absent),
  \<^item> a column reference with its name and its table qualifier (empty when absent),
  \<^item> an alias node or a CTE node: the alias text and the aliased expression,
  \<^item> any other node: its class, its \<open>kind\<close> text, its \<open>this\<close> argument, its
    \<open>expressions\<close> argument and its remaining arguments, in this order.
\<close>

datatype exp_type =
  exp_Insert | exp_Create | exp_Merge | exp_Schema | exp_Select | exp_With
  | exp_From | exp_Join | exp_Other

datatype Expression =
    exp_Table string string string string
  | exp_Column string string
  | exp_Alias string Expression
  | exp_CTE string Expression
  | Node exp_type string "Expression option" "Expression list" "Expression list"

fun is_Table :: "Expression \<Rightarrow> bool" where
  "is_Table (exp_Table name db catalog alias) = True"
| "is_Table e = False"

fun is_Column :: "Expression \<Rightarrow> bool" where
  "is_Column (exp_Column name table) = True"
| "is_Column e = False"

fun is_CTE :: "Expression \<Rightarrow> bool" where
  "is_CTE (exp_CTE alias this) = True"
| "is_CTE e = False"

fun is_type :: "exp_type \<Rightarrow> Expression \<Rightarrow> bool" where
  "is_type ty (Node ty' kind this expressions args) = (ty = ty')"
| "is_type ty e = False"

fun exp_name :: "Expression \<Rightarrow> string" where
  "exp_name (exp_Table name db catalog alias) = name"
| "exp_name (exp_Column name table) = name"
| "exp_name e = []"

fun exp_db :: "Expression \<Rightarrow> string" where
  "exp_db (exp_Table name db catalog alias) = db"
| "exp_db e = []"

fun exp_catalog :: "Expression \<Rightarrow> string" where
  "exp_catalog (exp_Table name db catalog alias) = catalog"
| "exp_catalog e = []"

fun exp_alias :: "Expression \<Rightarrow> string" where
  "exp_alias (exp_Table name db catalog alias) = alias"
| "exp_alias (exp_Alias alias this) = alias"
| "exp_alias (exp_CTE alias this) = alias"
| "exp_alias e = []"

fun exp_table :: "Expression \<Rightarrow> string" where
  "exp_table (exp_Column name table) = table"
| "exp_table e = []"

fun exp_kind :: "Expression \<Rightarrow> string" where
  "exp_kind (Node ty kind this expressions args) = kind"
| "exp_kind e = []"

fun exp_this :: "Expression \<Rightarrow> Expression option" where
  "exp_this (exp_Alias alias this) = Some this"
| "exp_this (exp_CTE alias this) = Some this"
| "exp_this (Node ty kind this expressions args) = this"
| "exp_this e = None"

fun exp_expressions :: "Expression \<Rightarrow> Expression list" where
  "exp_expressions (Node ty kind this expressions args) = expressions"
| "exp_expressions e = []"

fun children :: "Expression \<Rightarrow> Expression list" where
  "children (exp_Table name db catalog alias) = []"
| "children (exp_Column name table) = []"
| "children (exp_Alias alias this) = [this]"
| "children (exp_CTE alias this) = [this]"
| "children (Node ty kind this expressions args) =
     (case this of Some e \<Rightarrow> [e] | None \<Rightarrow> []) @ expressions @ args"

text \<open>
  \<open>walk\<close>: the breadth-first traversal behind \<open>find\<close> and \<open>find_all\<close>, started on a
  queue of (parent, node) pairs; every node is yielded with its parent.
\<close>

function walk ::
  "(Expression option \<times> Expression) list \<Rightarrow> (Expression option \<times> Expression) list" where
  "walk [] = []"
| "walk ((parent, e) # queue) =
     (parent, e) # walk (queue @ map (\<lambda>c. (Some e, c)) (children e))"
  by pat_completeness auto
termination
proof (relation "measure (\<lambda>q. sum_list (map (\<lambda>(p, e). Suc (size e)) q))")
  show "wf (measure (\<lambda>q. sum_list (map (\<lambda>(p, e). Suc (size e)) q)))"
    by simp
next
  fix parent :: "Expression option" and e :: Expression
    and queue :: "(Expression option \<times> Expression) list"
  have list: "sum_list (map (\<lambda>c. Suc (size c)) cs) = size_list size cs"
    for cs :: "Expression list"
    by (induction cs) simp_all
  have "sum_list (map (\<lambda>c. Suc (size c)) (children e)) \<le> size e"
    by (cases e) (auto split: option.splits simp: list)
  then show "(queue @ map (\<lambda>c. (Some e, c)) (children e), (parent, e) # queue)
          \<in> measure (\<lambda>q. sum_list (map (\<lambda>(p, e). Suc (size e)) q))"
    by (simp add: comp_def)
qed

definition find_all_with_parent ::
  "(Expression \<Rightarrow> bool) \<Rightarrow> Expression \<Rightarrow> (Expression option \<times> Expression) list" where
  "find_all_with_parent P e = filter (\<lambda>(parent, x). P x) (walk [(None, e)])"

definition find_all :: "(Expression \<Rightarrow> bool) \<Rightarrow> Expression \<Rightarrow> Expression list" where
  "find_all P e = map snd (find_all_with_parent P e)"

definition find_first :: "(Expression \<Rightarrow> bool) \<Rightarrow> Expression \<Rightarrow> Expression option" where
  "find_first P e = (case find_all P e of [] \<Rightarrow> None | x # xs \<Rightarrow> Some x)"

section \<open>Extraction (extractor.py)\<close>

text \<open>\<open>str.upper()\<close> on ASCII, for the test \<open>str(kind).upper() == "VIEW"\<close>.\<close>

definition upper_char :: "char \<Rightarrow> char" where
  "upper_char c =
     (let n = (of_char c :: nat) in if 97 \<le> n \<and> n \<le> 122 then char_of (n - 32) else c)"

definition upper :: "string \<Rightarrow> string" where
  "upper s = map upper_char s"

definition parse_table_ref :: "Expression \<Rightarrow> Table" where
  "parse_table_ref table_expr =
     \<lparr>t_name = exp_name table_expr,
      t_schema_name = (if exp_db table_expr \<noteq> [] then Some (exp_db table_expr) else None),
      t_database = (if exp_catalog table_expr \<noteq> [] then Some (exp_catalog table_expr) else None),
      t_source_file = None, t_is_cte = False\<rparr>"

text \<open>\<open>isinstance(parent, (exp.Insert, exp.Create, exp.Merge))\<close> and
  \<open>isinstance(parent, exp.CTE)\<close>; the root of the walk has no parent.\<close>

fun parent_is_write :: "Expression option \<Rightarrow> bool" where
  "parent_is_write None = False"
| "parent_is_write (Some p) = (is_type exp_Insert p \<or> is_type exp_Create p \<or> is_type exp_Merge p)"

fun parent_is_CTE :: "Expression option \<Rightarrow> bool" where
  "parent_is_CTE None = False"
| "parent_is_CTE (Some p) = is_CTE p"

text \<open>One round of the loop of \<open>_get_source_tables\<close> on the state (sources, seen).\<close>

definition source_step ::
  "Expression option \<times> Expression \<Rightarrow> Table list \<times> string list \<Rightarrow> Table list \<times> string list" where
  "source_step = (\<lambda>(parent, table_expr) (sources, seen).
     if parent_is_write parent then (sources, seen)
     else if parent_is_CTE parent then (sources, seen)
     else (let table = parse_table_ref table_expr;
               key = lower (table_qualified_name table)
           in if key \<notin> set seen then (sources @ [table], set_add key seen)
              else (sources, seen)))"

definition get_source_tables :: "Expression \<Rightarrow> Table list" where
  "get_source_tables expression =
     fst (fold source_step (find_all_with_parent is_Table expression) ([], []))"

definition get_target_table :: "Expression \<Rightarrow> Table option" where
  "get_target_table statement =
     (if is_type exp_Insert statement
         \<and> (case exp_this statement of Some table_expr \<Rightarrow> is_Table table_expr | None \<Rightarrow> False)
      then map_option parse_table_ref (exp_this statement)
      else if is_type exp_Create statement
         \<and> (case exp_this statement of Some table_expr \<Rightarrow> is_Table table_expr | None \<Rightarrow> False)
      then map_option parse_table_ref (exp_this statement)
      else if is_type exp_Create statement
         \<and> (case exp_this statement of
               Some table_expr \<Rightarrow>
                 is_type exp_Schema table_expr
                 \<and> (case exp_this table_expr of Some inner \<Rightarrow> is_Table inner | None \<Rightarrow> False)
             | None \<Rightarrow> False)
      then map_option parse_table_ref (Option.bind (exp_this statement) exp_this)
      else if is_type exp_Merge statement
         \<and> (case exp_this statement of Some table_expr \<Rightarrow> is_Table table_expr | None \<Rightarrow> False)
      then map_option parse_table_ref (exp_this statement)
      else None)"

definition get_cte_names :: "Expression \<Rightarrow> (Expression option) dict" where
  "get_cte_names statement =
     (case find_first (is_type exp_With) statement of
        None \<Rightarrow> []
      | Some with_clause \<Rightarrow>
          fold (\<lambda>cte ctes.
                  if exp_alias cte \<noteq> [] then AList.update (lower (exp_alias cte)) (exp_this cte) ctes
                  else ctes)
               (find_all is_CTE with_clause) [])"

text \<open>The body shared by the \<open>From\<close> and \<open>Join\<close> loops that fill the alias map.\<close>

definition register_alias :: "Expression \<Rightarrow> Table dict \<Rightarrow> Table dict" where
  "register_alias table_expr alias_map =
     (let tbl = parse_table_ref table_expr;
          alias = exp_alias table_expr;
          alias_map' = (if alias \<noteq> [] then AList.update (lower alias) tbl alias_map
                        else alias_map)
      in AList.update (lower (t_name tbl)) tbl alias_map')"

definition build_alias_map :: "Expression \<Rightarrow> Table list \<Rightarrow> Table dict" where
  "build_alias_map select source_tables =
     (let m0 = fold (\<lambda>table m. AList.update (lower (t_name table)) table m) source_tables [];
          m1 = fold (\<lambda>from_expr m. fold register_alias (find_all is_Table from_expr) m)
                 (find_all (is_type exp_From) select) m0
      in fold (\<lambda>join_expr m. fold register_alias (find_all is_Table join_expr) m)
           (find_all (is_type exp_Join) select) m1)"

text \<open>The produced column name and the expression searched for column references.\<close>

fun target_col_name_and_inner :: "Expression \<Rightarrow> string option \<times> Expression" where
  "target_col_name_and_inner (exp_Alias alias this) = (Some alias, this)"
| "target_col_name_and_inner (exp_Column name table) = (Some name, exp_Column name table)"
| "target_col_name_and_inner e = (None, e)"

definition column_refs :: "Expression \<Rightarrow> Expression list" where
  "column_refs inner = (if is_Column inner then [inner] else find_all is_Column inner)"

text \<open>The body of the loop over the column references of one projected item: no edge
  for a star, one edge otherwise.\<close>

definition column_ref_edges ::
  "Table dict \<Rightarrow> Table list \<Rightarrow> Column \<Rightarrow> string \<Rightarrow> string option \<Rightarrow> Expression
     \<Rightarrow> LineageEdge list" where
  "column_ref_edges alias_map source_tables target_col expression_sql source_file col_ref =
     (let source_col_name = exp_name col_ref;
          source_table_ref = exp_table col_ref
      in if source_col_name = ''*'' then []
         else (let source_table =
                     (if source_table_ref \<noteq> [] then map_of alias_map (lower source_table_ref)
                      else if length source_tables = 1 then Some (source_tables ! 0)
                      else None);
                   source_col = \<lparr>c_name = source_col_name, c_table = source_table\<rparr>
               in [\<lparr>e_source = column_qualified_name source_col,
                    e_target = column_qualified_name target_col,
                    e_edge_type = COLUMN_TO_COLUMN,
                    e_expression = Some expression_sql,
                    e_source_file = source_file\<rparr>]))"

text \<open>The body of the loop over the projected items.\<close>

definition select_expr_edges ::
  "(Expression \<Rightarrow> string) \<Rightarrow> Table dict \<Rightarrow> Table list \<Rightarrow> Table \<Rightarrow> string option
     \<Rightarrow> Expression \<Rightarrow> LineageEdge list" where
  "select_expr_edges to_sql alias_map source_tables target_table source_file select_expr =
     (case target_col_name_and_inner select_expr of
        (None, inner) \<Rightarrow> []
      | (Some target_col_name, inner) \<Rightarrow>
          if target_col_name = ''*'' then []
          else concat (map (column_ref_edges alias_map source_tables
                              \<lparr>c_name = target_col_name, c_table = Some target_table\<rparr>
                              (to_sql select_expr) source_file)
                           (column_refs inner)))"

text \<open>\<open>_extract_column_lineage\<close>; \<open>to_sql\<close> is the library's \<open>select_expr.sql()\<close>.\<close>

definition extract_column_lineage ::
  "(Expression \<Rightarrow> string) \<Rightarrow> Expression \<Rightarrow> Table option \<Rightarrow> Table list \<Rightarrow> string option
     \<Rightarrow> LineageEdge list" where
  "extract_column_lineage to_sql statement target_table source_tables source_file =
     (case target_table of
        None \<Rightarrow> []
      | Some target \<Rightarrow>
          (case (if is_type exp_Select statement then Some statement
                 else find_first (is_type exp_Select) statement) of
             None \<Rightarrow> []
           | Some select \<Rightarrow>
               concat (map (select_expr_edges to_sql (build_alias_map select source_tables)
                              source_tables target source_file)
                           (exp_expressions select))))"

text \<open>Registering the two column nodes of a column edge and the edge itself.\<close>

definition register_column :: "string \<Rightarrow> LineageGraph \<Rightarrow> LineageGraph" where
  "register_column qualified g =
     (case rsplit_dot qualified of
        [table_part, column_part] \<Rightarrow>
          snd (add_column g
                 \<lparr>c_name = column_part,
                  c_table = Some \<lparr>t_name = split_dot_last table_part, t_schema_name = None,
                                  t_database = None, t_source_file = None, t_is_cte = False\<rparr>\<rparr>)
      | parts \<Rightarrow> g)"

definition register_col_edge :: "LineageEdge \<Rightarrow> LineageGraph \<Rightarrow> LineageGraph" where
  "register_col_edge col_edge g =
     add_edge (register_column (e_target col_edge) (register_column (e_source col_edge) g)) col_edge"

text \<open>The source tables after \<open>src.source_file = source_file\<close> and \<open>src.is_cte = is_cte\<close>.\<close>

definition mark_source :: "(Expression option) dict \<Rightarrow> string option \<Rightarrow> Table \<Rightarrow> Table" where
  "mark_source ctes source_file src =
     src\<lparr>t_source_file := source_file, t_is_cte := dict_contains ctes (lower (t_name src))\<rparr>"

definition process_statement ::
  "(Expression \<Rightarrow> string) \<Rightarrow> Expression \<Rightarrow> LineageGraph \<Rightarrow> string option \<Rightarrow> bool
     \<Rightarrow> LineageGraph" where
  "process_statement to_sql statement graph source_file include_columns =
     (let ctes = get_cte_names statement;
          target_table = get_target_table statement;
          target_node_type =
            (if is_type exp_Create statement \<and> exp_kind statement \<noteq> []
                \<and> upper (exp_kind statement) = ''VIEW''
             then ''view'' else ''table'');
          source_tables = get_source_tables statement
      in case target_table of
           None \<Rightarrow>
             if is_type exp_Select statement
             then fold (\<lambda>src g. snd (add_table g src (if t_is_cte src then ''cte'' else ''table'')))
                    (map (mark_source ctes source_file) source_tables) graph
             else fold (\<lambda>src g. snd (add_table g (src\<lparr>t_source_file := source_file\<rparr>) ''table''))
                    source_tables graph
         | Some target \<Rightarrow>
             (let target' = target\<lparr>t_source_file := source_file\<rparr>;
                  g1 = snd (add_table graph target' target_node_type);
                  sources' = map (mark_source ctes source_file) source_tables;
                  g2 = fold (\<lambda>src g.
                               add_edge
                                 (snd (add_table g src (if t_is_cte src then ''cte'' else ''table'')))
                                 \<lparr>e_source = table_qualified_name src,
                                  e_target = table_qualified_name target',
                                  e_edge_type = TABLE_TO_TABLE,
                                  e_expression = None,
                                  e_source_file = source_file\<rparr>)
                         sources' g1
              in if include_columns
                 then fold register_col_edge
                        (extract_column_lineage to_sql statement (Some target') sources' source_file)
                        g2
                 else g2))"

definition extract_lineage ::
  "(Expression \<Rightarrow> string) \<Rightarrow> Expression list \<Rightarrow> string option \<Rightarrow> bool \<Rightarrow> LineageGraph" where
  "extract_lineage to_sql statements source_file include_columns =
     fold (\<lambda>statement graph. process_statement to_sql statement graph source_file include_columns)
          statements empty_graph"

section \<open>The resolver (resolver.py)\<close>

text \<open>
  Parsing is the outside library's: \<open>parse\<close> gives the statements of a SQL text, or
  \<open>Inl\<close> the text of the exception it raised. \<open>print\<close> appends a line to the output. The
  \<open>try\<close> block catches every exception of its body, so one round of the loop either
  merges the graph of the item or prints the warning.
\<close>

definition warning :: "string \<Rightarrow> string \<Rightarrow> string" where
  "warning file_name e = ''Warning: Error processing '' @ file_name @ '': '' @ e"

definition resolve_item ::
  "(Expression \<Rightarrow> string) \<Rightarrow> bool \<Rightarrow> string \<Rightarrow> string + Expression list
     \<Rightarrow> LineageGraph \<times> string list \<Rightarrow> LineageGraph \<times> string list" where
  "resolve_item to_sql include_columns file_name parsed = (\<lambda>(unified_graph, out).
     case parsed of
       Inr statements \<Rightarrow>
         (merge unified_graph (extract_lineage to_sql statements (Some file_name) include_columns),
          out)
     | Inl e \<Rightarrow> (unified_graph, out @ [warning file_name e]))"

definition resolve_sql_strings ::
  "(string \<Rightarrow> string + Expression list) \<Rightarrow> (Expression \<Rightarrow> string) \<Rightarrow> (string \<times> string) list
     \<Rightarrow> bool \<Rightarrow> LineageGraph \<times> string list" where
  "resolve_sql_strings parse_sql to_sql sql_strings include_columns =
     fold (\<lambda>(file_name, sql_content).
             resolve_item to_sql include_columns file_name (parse_sql sql_content))
          sql_strings (empty_graph, [])"

text \<open>\<open>resolve_files\<close>: \<open>path_name\<close> is \<open>Path(file_path).name\<close>, \<open>parse_file\<close> reads and
  parses the file, raising as \<open>parse\<close> does or when the file cannot be read.\<close>

definition resolve_files ::
  "(string \<Rightarrow> string) \<Rightarrow> (string \<Rightarrow> string + Expression list) \<Rightarrow> (Expression \<Rightarrow> string)
     \<Rightarrow> string list \<Rightarrow> bool \<Rightarrow> LineageGraph \<times> string list" where
  "resolve_files path_name parse_file to_sql file_paths include_columns =
     fold (\<lambda>file_path.
             resolve_item to_sql include_columns (path_name file_path) (parse_file file_path))
          file_paths (empty_graph, [])"

section \<open>Serialization (\<open>LineageGraph.to_d3_json\<close>)\<close>

datatype d3_node =
    D3_table string string string "string option" "string option" "string option" bool
  | D3_column string string string

fun d3_node_id :: "d3_node \<Rightarrow> string" where
  "d3_node_id (D3_table node_id name node_type schema database source_file is_cte) = node_id"
| "d3_node_id (D3_column node_id name table_id) = node_id"

record d3_link =
  l_source :: string
  l_target :: string
  l_type :: string
  l_expression :: "string option"
  l_source_file :: "string option"
  l_source_table :: "string option"
  l_source_column :: "string option"
  l_target_table :: "string option"
  l_target_column :: "string option"

record d3_json =
  nodes :: "d3_node list"
  links :: "d3_link list"

definition table_to_d3 :: "TableNode \<Rightarrow> d3_node" where
  "table_to_d3 table_node =
     D3_table (tn_id table_node) (tn_name table_node) (tn_node_type table_node)
       (tn_schema_name table_node) (tn_database table_node) (tn_source_file table_node)
       (tn_is_cte table_node)"

definition column_to_d3 :: "ColumnNode \<Rightarrow> d3_node" where
  "column_to_d3 col_node = D3_column (cn_id col_node) (cn_name col_node) (cn_table_id col_node)"

definition edge_to_d3 :: "LineageEdge \<Rightarrow> d3_link" where
  "edge_to_d3 edge =
     (let link_data =
            \<lparr>l_source = e_source edge, l_target = e_target edge,
             l_type = edge_type_value (e_edge_type edge),
             l_expression = e_expression edge, l_source_file = e_source_file edge,
             l_source_table = None, l_source_column = None,
             l_target_table = None, l_target_column = None\<rparr>
      in if e_edge_type edge = COLUMN_TO_COLUMN
         then (let src_parts = rsplit_dot (e_source edge);
                   tgt_parts = rsplit_dot (e_target edge);
                   link_data1 =
                     (if length src_parts = 2
                      then link_data\<lparr>l_source_table := Some (src_parts ! 0),
                                     l_source_column := Some (src_parts ! 1)\<rparr>
                      else link_data)
               in if length tgt_parts = 2
                  then link_data1\<lparr>l_target_table := Some (tgt_parts ! 0),
                                  l_target_column := Some (tgt_parts ! 1)\<rparr>
                  else link_data1)
         else link_data)"

definition to_d3_json :: "LineageGraph \<Rightarrow> d3_json" where
  "to_d3_json g =
     \<lparr>nodes = map (table_to_d3 \<circ> snd) (tables g) @ map (column_to_d3 \<circ> snd) (columns g),
      links = map edge_to_d3 (edges g)\<rparr>"

text \<open>A graph holds another one when it has every table id, every column id and
  every edge key of the other.\<close>

definition graph_contains :: "LineageGraph \<Rightarrow> LineageGraph \<Rightarrow> bool" where
  "graph_contains g h =
     (set (map fst (tables h)) \<subseteq> set (map fst (tables g))
      \<and> set (map fst (columns h)) \<subseteq> set (map fst (columns g))
      \<and> set (map edge_key (edges h)) \<subseteq> set (map edge_key (edges g)))"

section \<open>Notions for the proofs about the execution order\<close>

text \<open>The successor sets of \<open>adj\<close> hold known ids only.\<close>

definition adj_ok :: "string set \<Rightarrow> (string list) dict \<Rightarrow> bool" where
  "adj_ok K adj = (\<forall>u s. map_of adj u = Some s \<longrightarrow> set s \<subseteq> K)"

text \<open>The nodes taken so far (in \<open>order\<close> or waiting in the queue) are known ids, each
  once, and none of them has a positive in-degree left.\<close>

definition placed_ok :: "string set \<Rightarrow> int dict \<Rightarrow> string list \<Rightarrow> bool" where
  "placed_ok K in_degree xs =
     (fst ` set in_degree = K \<and> distinct xs \<and> set xs \<subseteq> K
      \<and> (\<forall>v \<in> set xs. \<forall>d. map_of in_degree v = Some d \<longrightarrow> d \<le> 0))"

text \<open>\<open>adj.get(u, [])\<close> as stored, and the edges that the building loop accepts.\<close>

definition successors :: "(string list) dict \<Rightarrow> string \<Rightarrow> string list" where
  "successors adj u = (case map_of adj u of Some s \<Rightarrow> s | None \<Rightarrow> [])"

definition accepted :: "string set \<Rightarrow> LineageEdge \<Rightarrow> bool" where
  "accepted K e =
     (e_edge_type e = TABLE_TO_TABLE \<and> lower (e_source e) \<in> K \<and> lower (e_target e) \<in> K)"

text \<open>The number of predecessors of \<open>v\<close> that have not been taken out of the queue yet.\<close>

definition pending :: "(string list) dict \<Rightarrow> string set \<Rightarrow> string list \<Rightarrow> string \<Rightarrow> nat" where
  "pending adj K order v = card {u \<in> K. u \<notin> set order \<and> v \<in> set (successors adj u)}"

text \<open>A node is on or after a cycle when some node that reaches itself reaches it.\<close>

definition after_cycle :: "LineageGraph \<Rightarrow> string \<Rightarrow> bool" where
  "after_cycle g u = (\<exists>c. (c, c) \<in> (tt_edges g)\<^sup>+ \<and> (c, u) \<in> (tt_edges g)\<^sup>*)"

text \<open>
  The state of Kahn's algorithm while the successors \<open>rest\<close> of the node taken last
  still wait for their decrement: the in-degree of a table is the number of its
  predecessors not taken yet, plus one while it waits in \<open>rest\<close>; and the tables
  taken or queued are the ones with no such predecessor that do not wait in \<open>rest\<close>.
\<close>

definition relax_inv ::
  "string set \<Rightarrow> (string list) dict \<Rightarrow> int dict \<Rightarrow> string list \<Rightarrow> string list
     \<Rightarrow> string list \<Rightarrow> bool" where
  "relax_inv K adj in_degree queue order rest =
     (fst ` set in_degree = K \<and> distinct (order @ queue) \<and> set (order @ queue) \<subseteq> K
      \<and> (\<forall>v \<in> K. map_of in_degree v
                     = Some (int (pending adj K order v) + (if v \<in> set rest then 1 else 0)))
      \<and> (\<forall>v \<in> K. (pending adj K order v = 0 \<and> v \<notin> set rest) \<longleftrightarrow> v \<in> set (order @ queue)))"

text \<open>Every table of \<open>order\<close> comes after all its predecessors.\<close>

definition comes_after_predecessors :: "(string list) dict \<Rightarrow> string set \<Rightarrow> string list \<Rightarrow> bool" where
  "comes_after_predecessors adj K order =
     (\<forall>u \<in> K. \<forall>v \<in> set (successors adj u).
        v \<in> set order \<longrightarrow> u \<in> set order \<and> index_of order u < index_of order v)"

section \<open>Concrete inputs\<close>

definition edge_Ab :: LineageEdge where
  "edge_Ab = \<lparr>e_source = ''Src'', e_target = ''Tgt'', e_edge_type = TABLE_TO_TABLE,
              e_expression = None, e_source_file = Some ''one.sql''\<rparr>"

definition edge_ab :: LineageEdge where
  "edge_ab = \<lparr>e_source = ''src'', e_target = ''TGT'', e_edge_type = TABLE_TO_TABLE,
              e_expression = None, e_source_file = Some ''two.sql''\<rparr>"

definition table_Source :: Table where
  "table_Source = \<lparr>t_name = ''Source'', t_schema_name = Some ''Raw'', t_database = None,
                   t_source_file = Some ''one.sql'', t_is_cte = False\<rparr>"

definition table_source :: Table where
  "table_source = \<lparr>t_name = ''source'', t_schema_name = Some ''raw'', t_database = Some [],
                   t_source_file = Some ''two.sql'', t_is_cte = True\<rparr>"

definition node_first :: TableNode where
  "node_first = \<lparr>tn_id = ''t'', tn_name = ''T'', tn_schema_name = None, tn_database = None,
                 tn_source_file = Some ''one.sql'', tn_is_cte = False, tn_node_type = ''view''\<rparr>"

definition node_second :: TableNode where
  "node_second = \<lparr>tn_id = ''t'', tn_name = ''t'', tn_schema_name = Some ''s'', tn_database = None,
                  tn_source_file = Some ''two.sql'', tn_is_cte = True, tn_node_type = ''cte''\<rparr>"

definition graph_first :: LineageGraph where
  "graph_first = \<lparr>tables = [(''t'', node_first)], columns = [], edges = [edge_Ab]\<rparr>"

definition graph_second :: LineageGraph where
  "graph_second = \<lparr>tables = [(''t'', node_second)], columns = [], edges = [edge_ab]\<rparr>"

text \<open>A stand-in for the library's \<open>sql()\<close>: the text of a column reference or of an
  aliased column reference, and a placeholder for every other expression.\<close>

fun example_sql :: "Expression \<Rightarrow> string" where
  "example_sql (exp_Column name table) = (if table = [] then name else table @ ''.'' @ name)"
| "example_sql (exp_Alias alias this) = example_sql this @ '' AS '' @ alias"
| "example_sql e = ''?''"

text \<open>\<open>MERGE INTO target USING source ON target.id = source.id WHEN MATCHED THEN ...\<close>: the
  merge node holds the target as \<open>this\<close> and the table of the \<open>USING\<close> clause, the join
  condition and the actions as its other arguments.\<close>

definition merge_stmt :: Expression where
  "merge_stmt =
     Node exp_Merge [] (Some (exp_Table ''target'' [] [] []))
       []
       [exp_Table ''source'' [] [] [],
        Node exp_Other [] None [exp_Column ''id'' ''target'', exp_Column ''id'' ''source''] [],
        Node exp_Other [] None [] []]"

text \<open>\<open>CREATE TABLE t (id) AS SELECT id FROM s\<close>: the created table sits inside a
  schema node that also lists the columns.\<close>

definition create_schema_stmt :: Expression where
  "create_schema_stmt =
     Node exp_Create ''TABLE''
       (Some (Node exp_Schema [] (Some (exp_Table ''t'' [] [] []))
                [Node exp_Other [] None [] []] []))
       []
       [Node exp_Select [] None [exp_Column ''id'' []]
          [Node exp_From [] (Some (exp_Table ''s'' [] [] [])) [] []]]"

definition plain_table :: "string \<Rightarrow> Table" where
  "plain_table n = \<lparr>t_name = n, t_schema_name = None, t_database = None,
                    t_source_file = None, t_is_cte = False\<rparr>"

text \<open>\<open>CREATE TABLE t AS SELECT x FROM a JOIN b\<close>\<close>

definition two_source_stmt :: Expression where
  "two_source_stmt =
     Node exp_Create ''TABLE'' (Some (exp_Table ''t'' [] [] []))
       []
       [Node exp_Select [] None [exp_Column ''x'' []]
          [Node exp_From [] (Some (exp_Table ''a'' [] [] [])) [] [],
           Node exp_Join [] (Some (exp_Table ''b'' [] [] [])) [] []]]"

text \<open>\<open>CREATE TABLE Mart.Target AS SELECT id FROM Raw.Source\<close>\<close>

definition mixed_case_stmt :: Expression where
  "mixed_case_stmt =
     Node exp_Create ''TABLE'' (Some (exp_Table ''Target'' ''Mart'' [] []))
       []
       [Node exp_Select [] None [exp_Column ''id'' []]
          [Node exp_From [] (Some (exp_Table ''Source'' ''Raw'' [] [])) [] []]]"

definition two_source_select :: Expression where
  "two_source_select =
     Node exp_Select [] None [exp_Column ''x'' []]
       [Node exp_From [] (Some (exp_Table ''a'' [] [] [])) [] [],
        Node exp_Join [] (Some (exp_Table ''b'' [] [] [])) [] []]"

definition bare_edge :: LineageEdge where
  "bare_edge = \<lparr>e_source = ''x'', e_target = ''t.x'', e_edge_type = COLUMN_TO_COLUMN,
                e_expression = Some ''x'', e_source_file = None\<rparr>"

definition mixed_target :: Table where
  "mixed_target = \<lparr>t_name = ''Target'', t_schema_name = Some ''Mart'', t_database = None,
                   t_source_file = None, t_is_cte = False\<rparr>"

definition mixed_source :: Table where
  "mixed_source = \<lparr>t_name = ''Source'', t_schema_name = Some ''Raw'', t_database = None,
                   t_source_file = None, t_is_cte = False\<rparr>"

definition mixed_table_edge :: LineageEdge where
  "mixed_table_edge = \<lparr>e_source = ''Raw.Source'', e_target = ''Mart.Target'',
                       e_edge_type = TABLE_TO_TABLE, e_expression = None, e_source_file = None\<rparr>"

definition mixed_column_edge :: LineageEdge where
  "mixed_column_edge = \<lparr>e_source = ''Raw.Source.id'', e_target = ''Mart.Target.id'',
                        e_edge_type = COLUMN_TO_COLUMN, e_expression = Some ''id'',
                        e_source_file = None\<rparr>"

definition mixed_graph1 :: LineageGraph where
  "mixed_graph1 =
     \<lparr>tables = [(''mart.target'',
                  \<lparr>tn_id = ''mart.target'', tn_name = ''Target'', tn_schema_name = Some ''Mart'',
                   tn_database = None, tn_source_file = None, tn_is_cte = False,
                   tn_node_type = ''table''\<rparr>)],
      columns = [], edges = []\<rparr>"

definition mixed_graph2 :: LineageGraph where
  "mixed_graph2 =
     \<lparr>tables = [(''mart.target'',
                  \<lparr>tn_id = ''mart.target'', tn_name = ''Target'', tn_schema_name = Some ''Mart'',
                   tn_database = None, tn_source_file = None, tn_is_cte = False,
                   tn_node_type = ''table''\<rparr>),
                 (''raw.source'',
                  \<lparr>tn_id = ''raw.source'', tn_name = ''Source'', tn_schema_name = Some ''Raw'',
                   tn_database = None, tn_source_file = None, tn_is_cte = False,
                   tn_node_type = ''table''\<rparr>)],
      columns = [], edges = [mixed_table_edge]\<rparr>"

definition mixed_graph :: LineageGraph where
  "mixed_graph =
     mixed_graph2
       \<lparr>columns := [(''source.id'',
                      \<lparr>cn_id = ''source.id'', cn_name = ''id'', cn_table_id = ''source''\<rparr>),
                     (''target.id'',
                      \<lparr>cn_id = ''target.id'', cn_name = ''id'', cn_table_id = ''target''\<rparr>)],
        edges := [mixed_table_edge, mixed_column_edge]\<rparr>"

text \<open>A parser that knows one statement and fails on every other text.\<close>

definition example_parse :: "string \<Rightarrow> string + Expression list" where
  "example_parse sql =
     (if sql = ''CREATE TABLE t AS SELECT x FROM a JOIN b'' then Inr [two_source_stmt]
      else Inl ''ParseError'')"

definition example_batch :: "(string \<times> string) list" where
  "example_batch =
     [(''bad.sql'', ''THIS IS NOT VALID SQL AT ALL !!!''),
      (''good.sql'', ''CREATE TABLE t AS SELECT x FROM a JOIN b'')]"

text \<open>A file reader and parser that finds no file, and the last component of a path.\<close>

definition example_parse_file :: "string \<Rightarrow> string + Expression list" where
  "example_parse_file file_path = Inl ''FileNotFoundError''"

definition example_path_name :: "string \<Rightarrow> string" where
  "example_path_name file_path = rev (takeWhile (\<lambda>c. c \<noteq> CHR ''/'') (rev file_path))"

definition example_node :: "string \<Rightarrow> string \<times> TableNode" where
  "example_node n =
     (n, \<lparr>tn_id = n, tn_name = n, tn_schema_name = None, tn_database = None,
          tn_source_file = None, tn_is_cte = False, tn_node_type = ''table''\<rparr>)"

definition example_edge :: "string \<Rightarrow> string \<Rightarrow> LineageEdge" where
  "example_edge u v = \<lparr>e_source = u, e_target = v, e_edge_type = TABLE_TO_TABLE,
                        e_expression = None, e_source_file = None\<rparr>"

text \<open>\<open>INSERT INTO a SELECT * FROM a\<close>, then \<open>CREATE TABLE b AS SELECT * FROM a\<close>, the
  table \<open>b\<close> having been registered first: \<open>a\<close> feeds itself and \<open>b\<close>.\<close>

definition cycle_graph :: LineageGraph where
  "cycle_graph =
     \<lparr>tables = [example_node ''b'', example_node ''a''], columns = [],
      edges = [example_edge ''a'' ''a'', example_edge ''a'' ''b'']\<rparr>"

text \<open>A graph without cycles whose edge list holds the edge from \<open>a\<close> to \<open>b\<close> twice.\<close>

definition duplicate_graph :: LineageGraph where
  "duplicate_graph =
     \<lparr>tables = [example_node ''c'', example_node ''b'', example_node ''a''], columns = [],
      edges = [example_edge ''a'' ''b'', example_edge ''a'' ''b'', example_edge ''b'' ''c'']\<rparr>"

text \<open>The diamond of the tests: \<open>a\<close> feeds \<open>b\<close> and \<open>c\<close>, both feed \<open>d\<close>.\<close>

definition diamond_graph :: LineageGraph where
  "diamond_graph =
     \<lparr>tables = [example_node ''b'', example_node ''a'', example_node ''c'', example_node ''d''],
      columns = [],
      edges = [example_edge ''a'' ''b'', example_edge ''a'' ''c'', example_edge ''b'' ''d'',
               example_edge ''c'' ''d'']\<rparr>"

section \<open>Facts about the graph operations\<close>

lemma edge_in_iff: "edge_in e es \<longleftrightarrow> edge_key e \<in> set (map edge_key es)"
  unfolding edge_in_def edge_eq_def edge_key_def by (simp add: image_iff) metis

lemma add_edge_keys:
  "distinct (map edge_key (edges g)) \<Longrightarrow> distinct (map edge_key (edges (add_edge g e)))"
  by (auto simp: add_edge_def edge_in_iff)

lemma add_edge_noop: "edge_key e \<in> set (map edge_key (edges g)) \<Longrightarrow> add_edge g e = g"
  by (simp add: add_edge_def edge_in_iff)

lemma add_edge_tables [simp]: "tables (add_edge g e) = tables g"
  by (simp add: add_edge_def)

lemma add_edge_columns [simp]: "columns (add_edge g e) = columns g"
  by (simp add: add_edge_def)

lemma add_edge_key_set:
  "set (map edge_key (edges (add_edge g e))) = insert (edge_key e) (set (map edge_key (edges g)))"
  by (auto simp: add_edge_def edge_in_iff)

lemma fold_add_edge_tables [simp]:
  "tables (fold (\<lambda>edge g'. add_edge g' edge) es g) = tables g"
  by (induction es arbitrary: g) simp_all

lemma fold_add_edge_columns [simp]:
  "columns (fold (\<lambda>edge g'. add_edge g' edge) es g) = columns g"
  by (induction es arbitrary: g) simp_all

lemma fold_add_edge_keys:
  "distinct (map edge_key (edges g))
   \<Longrightarrow> distinct (map edge_key (edges (fold (\<lambda>edge g'. add_edge g' edge) es g)))"
  by (induction es arbitrary: g) (simp_all add: add_edge_keys)

lemma fold_add_edge_key_set:
  "set (map edge_key (edges (fold (\<lambda>edge g'. add_edge g' edge) es g)))
     = set (map edge_key (edges g)) \<union> set (map edge_key es)"
proof (induction es arbitrary: g)
  case Nil
  show ?case by simp
next
  case (Cons e es)
  show ?case using Cons.IH [of "add_edge g e"] add_edge_key_set [of g e] by auto
qed

lemma fold_add_edge_absorb:
  "set (map edge_key es) \<subseteq> set (map edge_key (edges g))
   \<Longrightarrow> fold (\<lambda>edge g'. add_edge g' edge) es g = g"
  by (induction es) (simp_all add: add_edge_noop)

lemma add_edge_prefix: "prefix (edges g) (edges (add_edge g e))"
  by (simp add: add_edge_def)

lemma fold_add_edge_prefix: "prefix (edges g) (edges (fold (\<lambda>edge g'. add_edge g' edge) es g))"
proof (induction es arbitrary: g)
  case Nil
  show ?case by simp
next
  case (Cons e es)
  have "prefix (edges g) (edges (add_edge g e))"
    by (rule add_edge_prefix)
  also have "prefix \<dots> (edges (fold (\<lambda>edge g'. add_edge g' edge) es (add_edge g e)))"
    by (rule Cons.IH)
  finally show ?case by simp
qed

lemma update_absent: "k \<notin> set (map fst d) \<Longrightarrow> AList.update k v d = d @ [(k, v)]"
  by (induction d) auto

text \<open>The loop of \<open>merge\<close> over a dictionary, for tables and columns alike.\<close>

lemma merge_dict_prefix:
  "prefix d (fold (\<lambda>(k, n) d. if \<not> dict_contains d k then AList.update k n d else d) xs d)"
proof (induction xs arbitrary: d)
  case Nil
  show ?case by simp
next
  case (Cons x xs)
  obtain k n where x: "x = (k, n)" by (cases x)
  let ?d = "if \<not> dict_contains d k then AList.update k n d else d"
  have "prefix d ?d"
    by (simp add: dict_contains_def update_absent)
  also have "prefix ?d
      (fold (\<lambda>(k, n) d. if \<not> dict_contains d k then AList.update k n d else d) xs ?d)"
    by (rule Cons.IH)
  finally show ?case by (simp add: x)
qed

lemma merge_dict_keys:
  "set (map fst (fold (\<lambda>(k, n) d. if \<not> dict_contains d k then AList.update k n d else d) xs d))
     = set (map fst d) \<union> set (map fst xs)"
proof (induction xs arbitrary: d)
  case Nil
  show ?case by simp
next
  case (Cons x xs)
  obtain k n where x: "x = (k, n)" by (cases x)
  show ?case
    using Cons.IH [of "if \<not> dict_contains d k then AList.update k n d else d"]
    by (auto simp: x dict_contains_def update_absent)
qed

lemma merge_dict_distinct:
  "distinct (map fst d)
   \<Longrightarrow> distinct (map fst
         (fold (\<lambda>(k, n) d. if \<not> dict_contains d k then AList.update k n d else d) xs d))"
proof (induction xs arbitrary: d)
  case Nil
  then show ?case by simp
next
  case (Cons x xs)
  obtain k n where x: "x = (k, n)" by (cases x)
  have "distinct (map fst (if \<not> dict_contains d k then AList.update k n d else d))"
    using Cons.prems by (simp add: dict_contains_def update_absent)
  from Cons.IH [OF this] show ?case by (simp add: x)
qed

lemma merge_dict_absorb:
  "set (map fst xs) \<subseteq> set (map fst d)
   \<Longrightarrow> fold (\<lambda>(k, n) d. if \<not> dict_contains d k then AList.update k n d else d) xs d = d"
proof (induction xs)
  case Nil
  show ?case by simp
next
  case (Cons x xs)
  obtain k n where x: "x = (k, n)" by (cases x)
  from Cons.prems have "dict_contains d k"
    by (simp add: x dict_contains_def)
  with Cons show ?case by (simp add: x)
qed

lemma merge_tables_prefix: "prefix (tables g) (tables (merge g other))"
  by (simp add: merge_def merge_tables_def merge_dict_prefix)

lemma merge_columns_prefix: "prefix (columns g) (columns (merge g other))"
  by (simp add: merge_def merge_columns_def merge_dict_prefix)

lemma merge_edges_prefix: "prefix (edges g) (edges (merge g other))"
  using fold_add_edge_prefix
    [of "g\<lparr>tables := merge_tables (tables g) (tables other),
          columns := merge_columns (columns g) (columns other)\<rparr>" "edges other"]
  by (simp add: merge_def)

lemma merge_table_keys:
  "fst ` set (tables (merge g other)) = fst ` set (tables g) \<union> fst ` set (tables other)"
  using merge_dict_keys [of "tables other" "tables g"] by (simp add: merge_def merge_tables_def)

lemma merge_column_keys:
  "fst ` set (columns (merge g other)) = fst ` set (columns g) \<union> fst ` set (columns other)"
  using merge_dict_keys [of "columns other" "columns g"]
  by (simp add: merge_def merge_columns_def)

lemma merge_edge_keys:
  "edge_key ` set (edges (merge g other))
     = edge_key ` set (edges g) \<union> edge_key ` set (edges other)"
  using fold_add_edge_key_set
    [of "edges other" "g\<lparr>tables := merge_tables (tables g) (tables other),
          columns := merge_columns (columns g) (columns other)\<rparr>"]
  by (simp add: merge_def)

lemma merge_keys_distinct:
  "distinct (map edge_key (edges g)) \<Longrightarrow> distinct (map edge_key (edges (merge g other)))"
  unfolding merge_def by (rule fold_add_edge_keys) simp

lemma merge_absorb:
  assumes "set (map fst (tables other)) \<subseteq> set (map fst (tables g))"
    and "set (map fst (columns other)) \<subseteq> set (map fst (columns g))"
    and "set (map edge_key (edges other)) \<subseteq> set (map edge_key (edges g))"
  shows "merge g other = g"
proof -
  have "merge_tables (tables g) (tables other) = tables g"
    unfolding merge_tables_def using assms(1) by (rule merge_dict_absorb)
  moreover have "merge_columns (columns g) (columns other) = columns g"
    unfolding merge_columns_def using assms(2) by (rule merge_dict_absorb)
  ultimately show ?thesis
    using assms(3) by (simp add: merge_def fold_add_edge_absorb)
qed

lemma add_table_edges [simp]: "edges (snd (add_table g t n)) = edges g"
  by (simp add: add_table_def Let_def)

lemma add_table_columns [simp]: "columns (snd (add_table g t n)) = columns g"
  by (simp add: add_table_def Let_def)

lemma add_column_edges [simp]: "edges (snd (add_column g c)) = edges g"
  by (simp add: add_column_def Let_def)

lemma add_column_tables [simp]: "tables (snd (add_column g c)) = tables g"
  by (simp add: add_column_def Let_def)

lemma add_table_prefix: "prefix (tables g) (tables (snd (add_table g t n)))"
  by (simp add: add_table_def Let_def dict_contains_def update_absent)

lemma add_column_prefix: "prefix (columns g) (columns (snd (add_column g c)))"
  by (simp add: add_column_def Let_def dict_contains_def update_absent)

lemma apply_op_keys:
  "distinct (map edge_key (edges g)) \<Longrightarrow> distinct (map edge_key (edges (apply_op g op)))"
  by (cases op) (simp_all add: add_edge_keys merge_keys_distinct)

lemma run_ops_keys:
  "distinct (map edge_key (edges g)) \<Longrightarrow> distinct (map edge_key (edges (run_ops g ops)))"
  unfolding run_ops_def by (induction ops arbitrary: g) (simp_all add: apply_op_keys)

lemma apply_op_prefix:
  "prefix (tables g) (tables (apply_op g op))"
  "prefix (columns g) (columns (apply_op g op))"
  "prefix (edges g) (edges (apply_op g op))"
  by (cases op; simp add: add_table_prefix add_column_prefix add_edge_prefix
        merge_tables_prefix merge_columns_prefix merge_edges_prefix)+

lemma prefix_map_of: "prefix xs ys \<Longrightarrow> map_of xs k = Some v \<Longrightarrow> map_of ys k = Some v"
  by (auto simp: prefix_def)

lemma prefix_find: "prefix xs ys \<Longrightarrow> find P xs = Some v \<Longrightarrow> find P ys = Some v"
proof -
  have "find P xs = Some v \<Longrightarrow> find P (xs @ zs) = Some v" for zs
    by (induction xs) (auto split: if_splits)
  then show "prefix xs ys \<Longrightarrow> find P xs = Some v \<Longrightarrow> find P ys = Some v"
    by (auto simp: prefix_def)
qed

section \<open>Claims about the graph\<close>

text \<open>
  C4. A graph built from the empty graph by any sequence of \<open>add_table\<close>,
  \<open>add_column\<close>, \<open>add_edge\<close> and \<open>merge\<close> calls holds no two edges with the same dedup
  key (lowercased source, lowercased target, kind), and \<open>add_edge\<close> with an edge whose
  key is already stored leaves the edge list as it is.
\<close>

theorem edges_never_duplicated:
  "distinct (map edge_key (edges (run_ops empty_graph ops)))
   \<and> (edge_key e \<in> set (map edge_key (edges (run_ops empty_graph ops)))
        \<longrightarrow> edges (add_edge (run_ops empty_graph ops) e) = edges (run_ops empty_graph ops))"
  using run_ops_keys [of empty_graph ops] by (simp add: empty_graph_def add_edge_noop)

theorem edges_never_duplicated_witness:
  "edge_key edge_ab \<in> set (map edge_key (edges (run_ops empty_graph [Op_add_edge edge_Ab])))
   \<and> edges (add_edge (run_ops empty_graph [Op_add_edge edge_Ab]) edge_ab) = [edge_Ab]"
proof -
  have k: "edge_key edge_ab = edge_key edge_Ab"
    by code_simp
  have r: "run_ops empty_graph [Op_add_edge edge_Ab] = \<lparr>tables = [], columns = [], edges = [edge_Ab]\<rparr>"
    by (simp add: run_ops_def empty_graph_def add_edge_def edge_in_def)
  have m: "edge_key edge_ab \<in> set (map edge_key (edges (run_ops empty_graph [Op_add_edge edge_Ab])))"
    by (simp add: r k)
  with edges_never_duplicated [of "[Op_add_edge edge_Ab]" edge_ab] show ?thesis
    by (simp add: r)
qed

text \<open>
  C5. Two tables whose qualified names differ only in letter case get the same node id
  from \<open>add_table\<close>, whatever graph each call runs on; adding the second after the first
  changes nothing, so the empty graph ends up with one table node. The upstream and
  downstream lookups match ids without regard to letter case: \<open>get_upstream g a\<close> holds
  exactly the stored sources of the edges whose lowercased target is the lowercased
  \<open>a\<close>, \<open>get_downstream g a\<close> exactly the stored targets of the edges whose lowercased
  source is the lowercased \<open>a\<close>, so ids that differ only in letter case get the same
  answer.
\<close>

theorem case_variants_are_one_node:
  assumes "lower (table_qualified_name ta) = lower (table_qualified_name tb)"
  shows "table_eq ta tb
    \<and> fst (add_table g ta na) = fst (add_table g' tb nb)
    \<and> snd (add_table (snd (add_table g ta na)) tb nb) = snd (add_table g ta na)
    \<and> length (tables (snd (add_table (snd (add_table empty_graph ta na)) tb nb))) = 1
    \<and> (x \<in> set (get_upstream g a)
         \<longleftrightarrow> (\<exists>e \<in> set (edges g). e_source e = x \<and> lower (e_target e) = lower a))
    \<and> (y \<in> set (get_downstream g a)
         \<longleftrightarrow> (\<exists>e \<in> set (edges g). e_target e = y \<and> lower (e_source e) = lower a))
    \<and> (lower a = lower b
         \<longrightarrow> get_upstream g a = get_upstream g b \<and> get_downstream g a = get_downstream g b)"
proof -
  have present: "dict_contains (tables (snd (add_table h ta na))) (lower (table_qualified_name tb))"
    for h
    using assms
    by (cases "dict_contains (tables h) (lower (table_qualified_name ta))")
       (auto simp: add_table_def Let_def dict_contains_def update_absent)
  have same: "snd (add_table (snd (add_table h ta na)) tb nb) = snd (add_table h ta na)" for h
    using present [of h] by (simp add: add_table_def [of "snd (add_table h ta na)"] Let_def)
  have one: "length (tables (snd (add_table empty_graph ta na))) = 1"
    by (simp add: add_table_def Let_def empty_graph_def dict_contains_def)
  have up: "x \<in> set (get_upstream g a)
         \<longleftrightarrow> (\<exists>e \<in> set (edges g). e_source e = x \<and> lower (e_target e) = lower a)"
    by (auto simp: get_upstream_def)
  have down: "y \<in> set (get_downstream g a)
         \<longleftrightarrow> (\<exists>e \<in> set (edges g). e_target e = y \<and> lower (e_source e) = lower a)"
    by (auto simp: get_downstream_def)
  have variants: "lower a = lower b
         \<longrightarrow> get_upstream g a = get_upstream g b \<and> get_downstream g a = get_downstream g b"
    by (simp add: get_upstream_def get_downstream_def)
  have tables: "table_eq ta tb
    \<and> fst (add_table g ta na) = fst (add_table g' tb nb)
    \<and> snd (add_table (snd (add_table g ta na)) tb nb) = snd (add_table g ta na)
    \<and> length (tables (snd (add_table (snd (add_table empty_graph ta na)) tb nb))) = 1"
    using assms same [of g] same [of empty_graph] one
    by (simp add: table_eq_def add_table_def Let_def)
  from tables up down variants show ?thesis
    by blast
qed

theorem case_variants_are_one_node_witness:
  "lower (table_qualified_name table_Source) = lower (table_qualified_name table_source)
   \<and> fst (add_table empty_graph table_Source ''table'') = ''raw.source''
   \<and> fst (add_table empty_graph table_source ''cte'') = ''raw.source''
   \<and> length (tables (snd (add_table (snd (add_table empty_graph table_Source ''table''))
                                     table_source ''cte''))) = 1
   \<and> mixed_table_edge \<in> set (edges mixed_graph)
   \<and> e_source mixed_table_edge = ''Raw.Source''
   \<and> e_target mixed_table_edge = ''Mart.Target''
   \<and> lower (e_target mixed_table_edge) = lower ''MART.target''
   \<and> lower (e_source mixed_table_edge) = lower ''raw.SOURCE''
   \<and> ''Raw.Source'' \<in> set (get_upstream mixed_graph ''MART.target'')
   \<and> ''Mart.Target'' \<in> set (get_downstream mixed_graph ''raw.SOURCE'')
   \<and> ''Raw.Source'' \<notin> set (get_upstream mixed_graph ''raw.source'')"
proof -
  have h: "lower (table_qualified_name table_Source) = lower (table_qualified_name table_source)"
    by code_simp
  have i: "fst (add_table empty_graph table_Source ''table'') = ''raw.source''"
    by code_simp
  have m: "mixed_table_edge \<in> set (edges mixed_graph)"
    by (simp add: mixed_graph_def mixed_graph2_def)
  have s: "e_source mixed_table_edge = ''Raw.Source''"
    and t: "e_target mixed_table_edge = ''Mart.Target''"
    by (simp_all add: mixed_table_edge_def)
  have lt: "lower (e_target mixed_table_edge) = lower ''MART.target''"
    by code_simp
  have ls: "lower (e_source mixed_table_edge) = lower ''raw.SOURCE''"
    by code_simp
  have no: "\<not> (\<exists>e \<in> set (edges mixed_graph).
               e_source e = ''Raw.Source'' \<and> lower (e_target e) = lower ''raw.source'')"
    by code_simp
  note inst = case_variants_are_one_node [OF h, where g = mixed_graph and g' = empty_graph
      and na = "''table''" and nb = "''cte''" and x = "''Raw.Source''" and y = "''Mart.Target''"]
  from inst [where a = "''MART.target''" and b = "''mart.target''"] m s lt
  have up: "''Raw.Source'' \<in> set (get_upstream mixed_graph ''MART.target'')"
    by blast
  from inst [where a = "''raw.SOURCE''" and b = "''raw.source''"] m t ls
  have down: "''Mart.Target'' \<in> set (get_downstream mixed_graph ''raw.SOURCE'')"
    by blast
  from inst [where a = "''raw.source''" and b = "''raw.source''"] no
  have miss: "''Raw.Source'' \<notin> set (get_upstream mixed_graph ''raw.source'')"
    by blast
  from case_variants_are_one_node [OF h, where g = empty_graph and g' = empty_graph
      and na = "''table''" and nb = "''cte''"]
  have "fst (add_table empty_graph table_Source ''table'')
          = fst (add_table empty_graph table_source ''cte'')
        \<and> length (tables (snd (add_table (snd (add_table empty_graph table_Source ''table''))
                                          table_source ''cte''))) = 1"
    by blast
  with h i m s t lt ls up down miss show ?thesis by simp
qed

text \<open>
  C9. First writer wins. Whatever call comes next (\<open>add_table\<close>, \<open>add_column\<close>,
  \<open>add_edge\<close> or \<open>merge\<close>), the stored tables, columns and edges stay where they are,
  as a prefix of the new lists; so a table or column id keeps the node stored under it,
  and a dedup key keeps the edge stored under it, with its expression text and source
  attribution.
\<close>

theorem first_writer_wins:
  "prefix (tables g) (tables (apply_op g op))
   \<and> prefix (columns g) (columns (apply_op g op))
   \<and> prefix (edges g) (edges (apply_op g op))
   \<and> (map_of (tables g) tid = Some tnode \<longrightarrow> map_of (tables (apply_op g op)) tid = Some tnode)
   \<and> (map_of (columns g) cid = Some cnode \<longrightarrow> map_of (columns (apply_op g op)) cid = Some cnode)
   \<and> (find_edge g key = Some e \<longrightarrow> find_edge (apply_op g op) key = Some e)"
  using apply_op_prefix [of g op]
  by (auto simp: find_edge_def intro: prefix_map_of prefix_find)

theorem first_writer_wins_witness:
  "map_of (tables graph_first) ''t'' = Some node_first
   \<and> map_of (tables (merge graph_first graph_second)) ''t'' = Some node_first
   \<and> find_edge graph_first (''src'', ''tgt'', TABLE_TO_TABLE) = Some edge_Ab
   \<and> find_edge (merge graph_first graph_second) (''src'', ''tgt'', TABLE_TO_TABLE) = Some edge_Ab"
proof -
  have t: "map_of (tables graph_first) ''t'' = Some node_first"
    by (simp add: graph_first_def)
  have k: "edge_key edge_Ab = (''src'', ''tgt'', TABLE_TO_TABLE)"
    by code_simp
  have f: "find_edge graph_first (''src'', ''tgt'', TABLE_TO_TABLE) = Some edge_Ab"
    by (simp add: find_edge_def graph_first_def k)
  from first_writer_wins [of graph_first "Op_merge graph_second" "''t''" node_first
      undefined undefined "(''src'', ''tgt'', TABLE_TO_TABLE)" edge_Ab] t f
  show ?thesis by simp
qed

text \<open>
  C10. Merging is idempotent: merging a graph into itself changes nothing, merging the
  same graph a second time into an accumulator changes nothing, and so does merging
  a second extraction of the same statements into the first.
\<close>

theorem merge_idempotent:
  "merge g g = g
   \<and> merge (merge u g) g = merge u g
   \<and> merge (extract_lineage to_sql statements source_file include_columns)
            (extract_lineage to_sql statements source_file include_columns)
       = extract_lineage to_sql statements source_file include_columns"
proof -
  have self: "merge h h = h" for h
    by (rule merge_absorb) simp_all
  have "merge (merge u g) g = merge u g"
    by (rule merge_absorb) (simp_all add: merge_table_keys merge_column_keys merge_edge_keys)
  with self show ?thesis by simp
qed

section \<open>Claims about extraction and serialization\<close>

text \<open>
  C2 (the code departs from the claim). \<open>_get_source_tables\<close> skips a table reference
  by the class of its parent alone. The table of a \<open>MERGE ... USING\<close> clause is a
  direct argument of the merge node, so it is skipped although it is read and is not
  the target: the statement has a target and no source. A created table inside a
  schema node has the schema node as its parent, so it is kept as a source although
  \<open>_get_target_table\<close> returns it as the target.
\<close>

theorem source_extraction_by_parent_class:
  "get_target_table merge_stmt = Some (plain_table ''target'')
   \<and> get_source_tables merge_stmt = []
   \<and> get_target_table create_schema_stmt = Some (plain_table ''t'')
   \<and> get_source_tables create_schema_stmt = [plain_table ''t'', plain_table ''s'']"
  by code_simp

lemma concat_map_mem: "x \<in> set xs \<Longrightarrow> y \<in> set (f x) \<Longrightarrow> y \<in> set (concat (map f xs))"
  by auto

text \<open>
  C7 as stated fails: with two source tables, the unqualified column \<open>x\<close> of
  \<open>CREATE TABLE t AS SELECT x FROM a JOIN b\<close> still yields a column edge, from the bare
  name \<open>x\<close> to \<open>t.x\<close>.
\<close>

theorem unqualified_column_counterexample:
  "get_source_tables two_source_stmt = [plain_table ''a'', plain_table ''b'']
   \<and> find_first (is_type exp_Select) two_source_stmt = Some two_source_select
   \<and> exp_expressions two_source_select = [exp_Column ''x'' []]
   \<and> exp_table (exp_Column ''x'' []) = []
   \<and> extract_column_lineage example_sql two_source_stmt (Some (plain_table ''t''))
        [plain_table ''a'', plain_table ''b''] None = [bare_edge]"
  by code_simp

text \<open>
  C7, amended. For a statement with a target and more than one source table, every
  column reference without a qualifier in a projected item whose output name is known
  and is not the star, itself not a star, yields a column edge: its source is the bare
  column name (no owning table), its target is the target column, and it carries the
  text of the projected item and the source attribution.
\<close>

theorem unqualified_column_gets_bare_edge:
  assumes "(if is_type exp_Select statement then Some statement
            else find_first (is_type exp_Select) statement) = Some select"
    and "select_expr \<in> set (exp_expressions select)"
    and "target_col_name_and_inner select_expr = (Some target_col_name, inner)"
    and "target_col_name \<noteq> ''*''"
    and "col_ref \<in> set (column_refs inner)"
    and "exp_name col_ref \<noteq> ''*''"
    and "exp_table col_ref = []"
    and "1 < length source_tables"
  shows "\<lparr>e_source = exp_name col_ref,
          e_target = table_qualified_name target_table @ ''.'' @ target_col_name,
          e_edge_type = COLUMN_TO_COLUMN,
          e_expression = Some (to_sql select_expr),
          e_source_file = source_file\<rparr>
         \<in> set (extract_column_lineage to_sql statement (Some target_table) source_tables
                  source_file)"
proof -
  let ?edge = "\<lparr>e_source = exp_name col_ref,
          e_target = table_qualified_name target_table @ ''.'' @ target_col_name,
          e_edge_type = COLUMN_TO_COLUMN,
          e_expression = Some (to_sql select_expr),
          e_source_file = source_file\<rparr>"
  let ?alias_map = "build_alias_map select source_tables"
  let ?target_col = "\<lparr>c_name = target_col_name, c_table = Some target_table\<rparr>"
  have "column_ref_edges ?alias_map source_tables ?target_col (to_sql select_expr) source_file
          col_ref = [?edge]"
    using assms(6-8) by (simp add: column_ref_edges_def column_qualified_name_def)
  with assms(5)
  have "?edge \<in> set (concat (map (column_ref_edges ?alias_map source_tables ?target_col
                                     (to_sql select_expr) source_file) (column_refs inner)))"
    by (intro concat_map_mem [of col_ref]) simp_all
  with assms(3,4)
  have "?edge \<in> set (select_expr_edges to_sql ?alias_map source_tables target_table source_file
                        select_expr)"
    by (simp add: select_expr_edges_def)
  with assms(2)
  have "?edge \<in> set (concat (map (select_expr_edges to_sql ?alias_map source_tables target_table
                                     source_file) (exp_expressions select)))"
    by (intro concat_map_mem [of select_expr]) simp_all
  with assms(1) show ?thesis
    unfolding extract_column_lineage_def by simp
qed

theorem unqualified_column_gets_bare_edge_witness:
  "1 < length (get_source_tables two_source_stmt)
   \<and> exp_table (exp_Column ''x'' []) = []
   \<and> bare_edge \<in> set (extract_column_lineage example_sql two_source_stmt
                        (Some (plain_table ''t'')) (get_source_tables two_source_stmt) None)"
proof -
  have a1: "(if is_type exp_Select two_source_stmt then Some two_source_stmt
             else find_first (is_type exp_Select) two_source_stmt) = Some two_source_select"
    by code_simp
  have a2: "exp_Column ''x'' [] \<in> set (exp_expressions two_source_select)"
    by (simp add: two_source_select_def)
  have a3: "target_col_name_and_inner (exp_Column ''x'' []) = (Some ''x'', exp_Column ''x'' [])"
    by simp
  have a4: "''x'' \<noteq> ''*''"
    by simp
  have a5: "exp_Column ''x'' [] \<in> set (column_refs (exp_Column ''x'' []))"
    by (simp add: column_refs_def)
  have a6: "exp_name (exp_Column ''x'' []) \<noteq> ''*''"
    by simp
  have a7: "exp_table (exp_Column ''x'' []) = []"
    by simp
  have a8: "1 < length (get_source_tables two_source_stmt)"
    by code_simp
  have q: "table_qualified_name (plain_table ''t'') = ''t''"
    by code_simp
  from unqualified_column_gets_bare_edge [OF a1 a2 a3 a4 a5 a6 a7 a8,
      of "plain_table ''t''" example_sql None] a7 a8
  show ?thesis by (simp add: bare_edge_def q)
qed

text \<open>The graph extracted from \<open>CREATE TABLE Mart.Target AS SELECT id FROM Raw.Source\<close>,
  step by step.\<close>

lemma mixed_case_extraction:
  "extract_lineage example_sql [mixed_case_stmt] None True = mixed_graph"
proof -
  have src: "get_source_tables mixed_case_stmt = [mixed_source]"
    by code_simp
  have tgt: "get_target_table mixed_case_stmt = Some mixed_target"
    by code_simp
  have cte: "get_cte_names mixed_case_stmt = []"
    by code_simp
  have kind: "(is_type exp_Create mixed_case_stmt \<and> exp_kind mixed_case_stmt \<noteq> []
               \<and> upper (exp_kind mixed_case_stmt) = ''VIEW'') = False"
    by code_simp
  have ms: "mark_source [] None mixed_source = mixed_source"
    by code_simp
  have tg: "mixed_target\<lparr>t_source_file := None\<rparr> = mixed_target"
    by code_simp
  have flag: "t_is_cte mixed_source = False"
    by (simp add: mixed_source_def)
  have cols: "extract_column_lineage example_sql mixed_case_stmt (Some mixed_target)
                [mixed_source] None = [mixed_column_edge]"
    by code_simp
  have g1: "snd (add_table empty_graph mixed_target ''table'') = mixed_graph1"
    by code_simp
  have g2: "add_edge (snd (add_table mixed_graph1 mixed_source ''table''))
              \<lparr>e_source = table_qualified_name mixed_source,
               e_target = table_qualified_name mixed_target,
               e_edge_type = TABLE_TO_TABLE, e_expression = None, e_source_file = None\<rparr>
            = mixed_graph2"
    by code_simp
  have g3: "register_col_edge mixed_column_edge mixed_graph2 = mixed_graph"
    by code_simp
  show ?thesis
    by (simp add: extract_lineage_def process_statement_def Let_def
          src tgt cte kind ms tg flag cols g1 g2 g3)
qed

text \<open>
  C8 (the code departs from the claim). The node ids are lowercased, the link
  endpoints are the stored edge texts in their original case, and a column node is
  registered under the last part of its table's name only. For
  \<open>CREATE TABLE Mart.Target AS SELECT id FROM Raw.Source\<close> no link endpoint is a node id.
\<close>

theorem serialized_links_miss_node_ids:
  "map d3_node_id (nodes (to_d3_json (extract_lineage example_sql [mixed_case_stmt] None True)))
     = [''mart.target'', ''raw.source'', ''source.id'', ''target.id'']
   \<and> map l_source (links (to_d3_json (extract_lineage example_sql [mixed_case_stmt] None True)))
     = [''Raw.Source'', ''Raw.Source.id'']
   \<and> map l_target (links (to_d3_json (extract_lineage example_sql [mixed_case_stmt] None True)))
     = [''Mart.Target'', ''Mart.Target.id'']"
  unfolding mixed_case_extraction by code_simp

section \<open>Claims about the resolver\<close>

lemma graph_contains_refl: "graph_contains g g"
  by (simp add: graph_contains_def)

lemma graph_contains_trans:
  "graph_contains g h \<Longrightarrow> graph_contains h k \<Longrightarrow> graph_contains g k"
  unfolding graph_contains_def by blast

lemma graph_contains_merge_left: "graph_contains (merge g h) g"
  by (simp add: graph_contains_def merge_table_keys merge_column_keys merge_edge_keys)

lemma graph_contains_merge_right: "graph_contains (merge g h) h"
  by (simp add: graph_contains_def merge_table_keys merge_column_keys merge_edge_keys)

text \<open>One round of the resolver loop keeps what the accumulator and the output held.\<close>

lemma resolve_item_mono:
  "graph_contains (fst (resolve_item to_sql ic name parsed (g, out))) g
   \<and> set out \<subseteq> set (snd (resolve_item to_sql ic name parsed (g, out)))"
  by (cases parsed) (auto simp: resolve_item_def graph_contains_merge_left graph_contains_refl)

lemma resolve_fold_mono:
  "graph_contains (fst (fold (\<lambda>x. resolve_item to_sql ic (nm x) (pr x)) xs (g, out))) g
   \<and> set out \<subseteq> set (snd (fold (\<lambda>x. resolve_item to_sql ic (nm x) (pr x)) xs (g, out)))"
proof (induction xs arbitrary: g out)
  case Nil
  show ?case by (simp add: graph_contains_refl)
next
  case (Cons x xs)
  obtain g' out' where step: "resolve_item to_sql ic (nm x) (pr x) (g, out) = (g', out')"
    by (cases "resolve_item to_sql ic (nm x) (pr x) (g, out)")
  from resolve_item_mono [of to_sql ic "nm x" "pr x" g out] step
  have "graph_contains g' g" and "set out \<subseteq> set out'"
    by simp_all
  with Cons.IH [of g' out'] show ?case
    by (auto simp: step intro: graph_contains_trans)
qed

lemma resolve_fold_item:
  assumes "x \<in> set xs"
  shows "(\<forall>e. pr x = Inl e
            \<longrightarrow> warning (nm x) e
                  \<in> set (snd (fold (\<lambda>x. resolve_item to_sql ic (nm x) (pr x)) xs (g, out))))
       \<and> (\<forall>statements. pr x = Inr statements
            \<longrightarrow> graph_contains (fst (fold (\<lambda>x. resolve_item to_sql ic (nm x) (pr x)) xs (g, out)))
                  (extract_lineage to_sql statements (Some (nm x)) ic))"
  using assms
proof (induction xs arbitrary: g out)
  case Nil
  then show ?case by simp
next
  case (Cons y ys)
  obtain g' out' where step: "resolve_item to_sql ic (nm y) (pr y) (g, out) = (g', out')"
    by (cases "resolve_item to_sql ic (nm y) (pr y) (g, out)")
  show ?case
  proof (cases "x \<in> set ys")
    case True
    from Cons.IH [OF True, of g' out'] show ?thesis by (simp add: step)
  next
    case False
    with Cons.prems have xy: "x = y" by simp
    note mono = resolve_fold_mono [of to_sql ic nm pr ys g' out']
    have "warning (nm x) e \<in> set out'" if "pr x = Inl e" for e
      using step that by (auto simp: resolve_item_def xy)
    moreover have "graph_contains g' (extract_lineage to_sql statements (Some (nm x)) ic)"
      if "pr x = Inr statements" for statements
      using step that by (auto simp: resolve_item_def xy graph_contains_merge_right)
    ultimately show ?thesis
      using mono by (auto simp: step intro: graph_contains_trans)
  qed
qed

text \<open>
  C6. The resolver gives a graph and an output for every batch, whatever the parser
  does with each item. For every item of the batch: when parsing it fails, the output
  holds the warning that names the item and the cause; when parsing it succeeds, the
  returned graph holds every table id, column id and edge key of the graph extracted
  from it. This holds for \<open>resolve_sql_strings\<close> and for \<open>resolve_files\<close>.
\<close>

theorem resolver_isolates_failures:
  "((file_name, sql_content) \<in> set sql_strings \<longrightarrow>
      (case parse_sql sql_content of
         Inl e \<Rightarrow>
           warning file_name e
             \<in> set (snd (resolve_sql_strings parse_sql to_sql sql_strings include_columns))
       | Inr statements \<Rightarrow>
           graph_contains (fst (resolve_sql_strings parse_sql to_sql sql_strings include_columns))
             (extract_lineage to_sql statements (Some file_name) include_columns)))
   \<and> (file_path \<in> set file_paths \<longrightarrow>
      (case parse_file file_path of
         Inl e \<Rightarrow>
           warning (path_name file_path) e
             \<in> set (snd (resolve_files path_name parse_file to_sql file_paths include_columns))
       | Inr statements \<Rightarrow>
           graph_contains
             (fst (resolve_files path_name parse_file to_sql file_paths include_columns))
             (extract_lineage to_sql statements (Some (path_name file_path)) include_columns)))"
proof -
  have strings: "resolve_sql_strings parse_sql to_sql sql_strings include_columns
      = fold (\<lambda>x. resolve_item to_sql include_columns (fst x) (parse_sql (snd x)))
          sql_strings (empty_graph, [])"
    by (simp add: resolve_sql_strings_def case_prod_unfold)
  have files: "resolve_files path_name parse_file to_sql file_paths include_columns
      = fold (\<lambda>x. resolve_item to_sql include_columns (path_name x) (parse_file x))
          file_paths (empty_graph, [])"
    by (simp add: resolve_files_def)
  show ?thesis
    using resolve_fold_item [of "(file_name, sql_content)" sql_strings "\<lambda>x. parse_sql (snd x)" fst
        to_sql include_columns empty_graph "[]"]
      resolve_fold_item [of file_path file_paths parse_file path_name
        to_sql include_columns empty_graph "[]"]
    unfolding strings files by (auto split: sum.splits)
qed

theorem resolver_isolates_failures_witness:
  "(''bad.sql'', ''THIS IS NOT VALID SQL AT ALL !!!'') \<in> set example_batch
   \<and> (''good.sql'', ''CREATE TABLE t AS SELECT x FROM a JOIN b'') \<in> set example_batch
   \<and> ''Warning: Error processing bad.sql: ParseError''
        \<in> set (snd (resolve_sql_strings example_parse example_sql example_batch True))
   \<and> graph_contains (fst (resolve_sql_strings example_parse example_sql example_batch True))
        (extract_lineage example_sql [two_source_stmt] (Some ''good.sql'') True)
   \<and> ''sql/gone.sql'' \<in> set [''sql/gone.sql'']
   \<and> ''Warning: Error processing gone.sql: FileNotFoundError''
        \<in> set (snd (resolve_files example_path_name example_parse_file example_sql
                       [''sql/gone.sql''] True))"
proof -
  have bad: "(''bad.sql'', ''THIS IS NOT VALID SQL AT ALL !!!'') \<in> set example_batch"
    by (simp add: example_batch_def)
  have good: "(''good.sql'', ''CREATE TABLE t AS SELECT x FROM a JOIN b'') \<in> set example_batch"
    by (simp add: example_batch_def)
  have pbad: "example_parse ''THIS IS NOT VALID SQL AT ALL !!!'' = Inl ''ParseError''"
    by (simp add: example_parse_def)
  have pgood: "example_parse ''CREATE TABLE t AS SELECT x FROM a JOIN b'' = Inr [two_source_stmt]"
    by (simp add: example_parse_def)
  have w: "warning ''bad.sql'' ''ParseError'' = ''Warning: Error processing bad.sql: ParseError''"
    by (simp add: warning_def)
  have w': "warning (example_path_name ''sql/gone.sql'') ''FileNotFoundError''
              = ''Warning: Error processing gone.sql: FileNotFoundError''"
    by (simp add: warning_def example_path_name_def)
  from resolver_isolates_failures [where file_name = "''bad.sql''"
      and sql_content = "''THIS IS NOT VALID SQL AT ALL !!!''" and sql_strings = example_batch
      and parse_sql = example_parse and to_sql = example_sql and include_columns = True
      and file_path = "''sql/gone.sql''" and file_paths = "[''sql/gone.sql'']"
      and parse_file = example_parse_file and path_name = example_path_name] bad pbad w w'
  have 1: "''Warning: Error processing bad.sql: ParseError''
        \<in> set (snd (resolve_sql_strings example_parse example_sql example_batch True))"
    and 2: "''Warning: Error processing gone.sql: FileNotFoundError''
        \<in> set (snd (resolve_files example_path_name example_parse_file example_sql
                       [''sql/gone.sql''] True))"
    by (simp_all add: example_parse_file_def)
  from resolver_isolates_failures [where file_name = "''good.sql''"
      and sql_content = "''CREATE TABLE t AS SELECT x FROM a JOIN b''"
      and sql_strings = example_batch
      and parse_sql = example_parse and to_sql = example_sql and include_columns = True
      and file_paths = "[]"] good pgood
  have 3: "graph_contains (fst (resolve_sql_strings example_parse example_sql example_batch True))
        (extract_lineage example_sql [two_source_stmt] (Some ''good.sql'') True)"
    by simp
  from bad good 1 2 3 show ?thesis by simp
qed

section \<open>Claims about the execution order\<close>

lemma setdefault_keys: "fst ` set (setdefault k v d) = insert k (fst ` set d)"
  by (auto simp: setdefault_def dict_contains_def update_absent)

lemma setdefault_distinct: "distinct (map fst d) \<Longrightarrow> distinct (map fst (setdefault k v d))"
  by (simp add: setdefault_def dict_contains_def update_absent)

lemma setdefault_values:
  "\<forall>x \<in> set d. snd x = v \<Longrightarrow> \<forall>x \<in> set (setdefault k v d). snd x = v"
  by (auto simp: setdefault_def dict_contains_def update_absent)

lemma setdefault_fold:
  "fst ` set (fold (\<lambda>(k, n). setdefault k v) ts d) = fst ` set d \<union> fst ` set ts"
  "distinct (map fst d) \<Longrightarrow> distinct (map fst (fold (\<lambda>(k, n). setdefault k v) ts d))"
  "\<forall>x \<in> set d. snd x = v \<Longrightarrow> \<forall>x \<in> set (fold (\<lambda>(k, n). setdefault k v) ts d). snd x = v"
proof (induction ts arbitrary: d)
  case Nil
  {
    case 1 show ?case by simp
  next
    case 2 then show ?case by simp
  next
    case 3 then show ?case by simp
  }
next
  case (Cons t ts)
  obtain k n where t: "t = (k, n)" by (cases t)
  {
    case 1
    show ?case
      using Cons.IH(1) [of "setdefault k v d"] setdefault_keys [of k v d]
      by (simp add: t)
  next
    case 2
    then have "distinct (map fst (setdefault k v d))"
      by (rule setdefault_distinct)
    then show ?case
      using Cons.IH(2) [of "setdefault k v d"] by (simp add: t)
  next
    case 3
    then have "\<forall>x \<in> set (setdefault k v d). snd x = v"
      by (rule setdefault_values)
    then show ?case
      using Cons.IH(3) [of "setdefault k v d"] by (simp add: t)
  }
qed

lemma build_nodes_split:
  "fold (\<lambda>(table_id, table_node) (adj, in_degree).
           (setdefault table_id [] adj, setdefault table_id 0 in_degree)) ts (adj0, deg0)
   = (fold (\<lambda>(k, n). setdefault k []) ts adj0, fold (\<lambda>(k, n). setdefault k 0) ts deg0)"
  by (induction ts arbitrary: adj0 deg0) (simp_all add: case_prod_unfold)

lemma build_nodes_props:
  assumes "build_nodes ts = (adj, deg)"
  shows "fst ` set adj = fst ` set ts" and "fst ` set deg = fst ` set ts"
    and "distinct (map fst adj)" and "distinct (map fst deg)"
    and "\<forall>x \<in> set adj. snd x = []" and "\<forall>x \<in> set deg. snd x = 0"
proof -
  from assms have adj: "adj = fold (\<lambda>(k, n). setdefault k []) ts []"
    and deg: "deg = fold (\<lambda>(k, n). setdefault k 0) ts []"
    by (simp_all add: build_nodes_def build_nodes_split)
  show "fst ` set adj = fst ` set ts"
    unfolding adj by (simp add: setdefault_fold(1))
  show "fst ` set deg = fst ` set ts"
    unfolding deg by (simp add: setdefault_fold(1))
  show "distinct (map fst adj)"
    unfolding adj by (rule setdefault_fold(2)) simp
  show "distinct (map fst deg)"
    unfolding deg by (rule setdefault_fold(2)) simp
  show "\<forall>x \<in> set adj. snd x = []"
    unfolding adj by (rule setdefault_fold(3)) simp
  show "\<forall>x \<in> set deg. snd x = 0"
    unfolding deg by (rule setdefault_fold(3)) simp
qed

lemma update_present_keys: "k \<in> fst ` set d \<Longrightarrow> map fst (AList.update k v d) = map fst d"
  by (simp add: update_keys)

lemma map_of_Some_key: "map_of d k = Some v \<Longrightarrow> k \<in> fst ` set d"
  by (force dest: map_of_SomeD)

lemma update_member_keys: "(k, b) \<in> set d \<Longrightarrow> map fst (AList.update k v d) = map fst d"
  by (rule update_present_keys) force

lemma same_keys: "map fst a = map fst b \<Longrightarrow> fst ` set a = fst ` set b"
  by (metis image_set)

text \<open>The two ways one round of the edge loop can go.\<close>

lemma build_edge_cases:
  obtains (skip) "build_edge e (adj, deg) = (adj, deg)"
      and "e_edge_type e \<noteq> TABLE_TO_TABLE \<or> lower (e_source e) \<notin> fst ` set adj
           \<or> lower (e_target e) \<notin> fst ` set deg"
  | (add) targets d where "e_edge_type e = TABLE_TO_TABLE"
      and "map_of adj (lower (e_source e)) = Some targets"
      and "map_of deg (lower (e_target e)) = Some d"
      and "build_edge e (adj, deg)
           = (AList.update (lower (e_source e)) (set_add (lower (e_target e)) targets) adj,
              AList.update (lower (e_target e)) (d + 1) deg)"
proof (cases "e_edge_type e = TABLE_TO_TABLE")
  case False
  then have "edge_type_value (e_edge_type e) \<noteq> ''table_to_table''"
    by (cases "e_edge_type e") simp_all
  then have "build_edge e (adj, deg) = (adj, deg)"
    by (simp add: build_edge_def)
  with False show ?thesis by (intro skip) simp_all
next
  case tt: True
  show ?thesis
  proof (cases "map_of adj (lower (e_source e))")
    case None
    then have "lower (e_source e) \<notin> fst ` set adj"
      by (simp add: map_of_eq_None_iff)
    moreover from None have "build_edge e (adj, deg) = (adj, deg)"
      by (simp add: build_edge_def Let_def)
    ultimately show ?thesis by (intro skip) simp_all
  next
    case (Some targets)
    show ?thesis
    proof (cases "map_of deg (lower (e_target e))")
      case None
      then have n: "lower (e_target e) \<notin> fst ` set deg"
        by (simp add: map_of_eq_None_iff)
      then have "build_edge e (adj, deg) = (adj, deg)"
        using Some by (simp add: build_edge_def Let_def dict_contains_def)
      with n show ?thesis by (intro skip) simp_all
    next
      case d: (Some d)
      then have "lower (e_target e) \<in> fst ` set deg"
        by (rule map_of_Some_key)
      then have "build_edge e (adj, deg)
           = (AList.update (lower (e_source e)) (set_add (lower (e_target e)) targets) adj,
              AList.update (lower (e_target e)) (d + 1) deg)"
        using tt Some d by (simp add: build_edge_def Let_def dict_contains_def)
      with tt Some d show ?thesis by (rule add)
    qed
  qed
qed

lemma build_edge_keys:
  assumes "build_edge e (adj, deg) = (adj', deg')"
  shows "map fst adj' = map fst adj" and "map fst deg' = map fst deg"
    and "adj_ok (fst ` set deg) adj \<Longrightarrow> adj_ok (fst ` set deg) adj'"
proof -
  have "map fst adj' = map fst adj \<and> map fst deg' = map fst deg
        \<and> (adj_ok (fst ` set deg) adj \<longrightarrow> adj_ok (fst ` set deg) adj')"
  proof (cases rule: build_edge_cases [where e = e and adj = adj and deg = deg])
    case skip
    with assms show ?thesis by simp
  next
    case (add targets d)
    from add(2) have ks: "lower (e_source e) \<in> fst ` set adj"
      by (rule map_of_Some_key)
    from add(3) have kt: "lower (e_target e) \<in> fst ` set deg"
      by (rule map_of_Some_key)
    from assms add(4)
    have adj': "adj' = AList.update (lower (e_source e)) (set_add (lower (e_target e)) targets) adj"
      and deg': "deg' = AList.update (lower (e_target e)) (d + 1) deg"
      by simp_all
    have "adj_ok (fst ` set deg) adj'" if ok: "adj_ok (fst ` set deg) adj"
      unfolding adj_ok_def
    proof (intro allI impI)
      fix u s assume m: "map_of adj' u = Some s"
      show "set s \<subseteq> fst ` set deg"
      proof (cases "u = lower (e_source e)")
        case True
        with m have "s = set_add (lower (e_target e)) targets"
          by (simp add: adj' update_conv')
        moreover from ok add(2) have "set targets \<subseteq> fst ` set deg"
          unfolding adj_ok_def by blast
        ultimately show ?thesis
          using kt by (auto simp: set_add_def)
      next
        case False
        with m have "map_of adj u = Some s"
          by (simp add: adj' update_conv')
        with ok show ?thesis
          unfolding adj_ok_def by blast
      qed
    qed
    then show ?thesis
      using ks kt by (simp add: adj' deg' update_present_keys)
  qed
  then show "map fst adj' = map fst adj" and "map fst deg' = map fst deg"
    and "adj_ok (fst ` set deg) adj \<Longrightarrow> adj_ok (fst ` set deg) adj'"
    by simp_all
qed

lemma build_edges_keys:
  assumes "fold build_edge es (adj, deg) = (adj', deg')"
  shows "map fst adj' = map fst adj \<and> map fst deg' = map fst deg
       \<and> (adj_ok (fst ` set deg) adj \<longrightarrow> adj_ok (fst ` set deg) adj')"
  using assms
proof (induction es arbitrary: adj deg)
  case Nil
  then show ?case by simp
next
  case (Cons e es)
  obtain adj1 deg1 where step: "build_edge e (adj, deg) = (adj1, deg1)"
    by (cases "build_edge e (adj, deg)")
  from Cons.prems have "fold build_edge es (adj1, deg1) = (adj', deg')"
    by (simp add: step)
  from Cons.IH [OF this]
  have ih1: "map fst adj' = map fst adj1" and ih2: "map fst deg' = map fst deg1"
    and ih3: "adj_ok (fst ` set deg1) adj1 \<Longrightarrow> adj_ok (fst ` set deg1) adj'"
    by blast+
  note st = build_edge_keys [OF step]
  from st(2) have k: "fst ` set deg1 = fst ` set deg"
    by (rule same_keys)
  have "map fst adj' = map fst adj"
    using ih1 st(1) by (rule trans)
  moreover have "map fst deg' = map fst deg"
    using ih2 st(2) by (rule trans)
  moreover have "adj_ok (fst ` set deg) adj'" if "adj_ok (fst ` set deg) adj"
  proof -
    from that have "adj_ok (fst ` set deg) adj1" by (rule st(3))
    then have "adj_ok (fst ` set deg1) adj1" unfolding k .
    then have "adj_ok (fst ` set deg1) adj'" by (rule ih3)
    then show ?thesis unfolding k .
  qed
  ultimately show ?case by blast
qed

text \<open>What the two building loops leave: both dictionaries have the table ids as keys,
  each once, and the successor sets hold table ids only.\<close>

lemma build_graph_props:
  assumes "build_graph g = (adj, deg)"
  shows "fst ` set adj = fst ` set (tables g)" and "fst ` set deg = fst ` set (tables g)"
    and "distinct (map fst deg)" and "adj_ok (fst ` set (tables g)) adj"
proof -
  obtain adj0 deg0 where b: "build_nodes (tables g) = (adj0, deg0)"
    by (cases "build_nodes (tables g)")
  note n = build_nodes_props [OF b]
  have ok0: "adj_ok (fst ` set deg0) adj0"
    unfolding adj_ok_def
  proof (intro allI impI)
    fix u s assume "map_of adj0 u = Some s"
    then have "(u, s) \<in> set adj0" by (rule map_of_SomeD)
    with n(5) have "s = []" by force
    then show "set s \<subseteq> fst ` set deg0" by simp
  qed
  from assms b have "fold build_edge (edges g) (adj0, deg0) = (adj, deg)"
    by (simp add: build_graph_def)
  from build_edges_keys [OF this]
  have e1: "map fst adj = map fst adj0" and e2: "map fst deg = map fst deg0"
    and e3: "adj_ok (fst ` set deg0) adj0 \<Longrightarrow> adj_ok (fst ` set deg0) adj"
    by blast+
  from e1 have ka: "fst ` set adj = fst ` set adj0" by (rule same_keys)
  from e2 have kd: "fst ` set deg = fst ` set deg0" by (rule same_keys)
  show "fst ` set adj = fst ` set (tables g)"
    unfolding ka by (rule n(1))
  show "fst ` set deg = fst ` set (tables g)"
    unfolding kd by (rule n(2))
  show "distinct (map fst deg)"
    unfolding e2 by (rule n(4))
  from ok0 have "adj_ok (fst ` set deg0) adj" by (rule e3)
  then show "adj_ok (fst ` set (tables g)) adj"
    unfolding n(2) .
qed

lemma relax_placed:
  assumes "placed_ok K deg (order @ q)" and "set ns \<subseteq> K"
  shows "\<exists>deg' q'. relax ns (deg, q) = Inr (deg', q') \<and> placed_ok K deg' (order @ q')"
  using assms
proof (induction ns arbitrary: deg q)
  case Nil
  then show ?case by simp
next
  case (Cons n ns)
  from Cons.prems have keys: "fst ` set deg = K" and dist: "distinct (order @ q)"
    and sub: "set (order @ q) \<subseteq> K"
    and low: "\<And>v d. v \<in> set (order @ q) \<Longrightarrow> map_of deg v = Some d \<Longrightarrow> d \<le> 0"
    and nK: "n \<in> K"
    unfolding placed_ok_def by auto
  from nK keys obtain d where d: "map_of deg n = Some d"
    by (metis domD dom_map_of_conv_image_fst)
  let ?deg = "AList.update n (d - 1) deg"
  let ?q = "if d - 1 = 0 then q @ [n] else q"
  have keys': "fst ` set ?deg = K"
    using keys nK by (auto simp: dom_update)
  have low': "d' \<le> 0" if "v \<in> set (order @ q)" and "map_of ?deg v = Some d'" for v d'
  proof (cases "v = n")
    case True
    from that(1) True have "n \<in> set (order @ q)" by simp
    then have "d \<le> 0" using d by (rule low)
    moreover from True that(2) have "d' = d - 1" by (simp add: update_conv')
    ultimately show ?thesis by simp
  next
    case False
    with that(2) have "map_of deg v = Some d'" by (simp add: update_conv')
    with that(1) show ?thesis by (rule low)
  qed
  have "placed_ok K ?deg (order @ ?q)"
  proof (cases "d - 1 = 0")
    case True
    then have "d = 1" by simp
    have fresh: "n \<notin> set (order @ q)"
    proof
      assume "n \<in> set (order @ q)"
      then have "d \<le> 0" using d by (rule low)
      with \<open>d = 1\<close> show False by simp
    qed
    have "d' \<le> 0" if "v \<in> set (order @ q @ [n])" and "map_of ?deg v = Some d'" for v d'
    proof (cases "v = n")
      case True
      with that(2) \<open>d = 1\<close> show ?thesis by (simp add: update_conv')
    next
      case False
      with that(1) have "v \<in> set (order @ q)" by auto
      then show ?thesis using that(2) by (rule low')
    qed
    with True keys' dist sub fresh nK show ?thesis
      unfolding placed_ok_def by auto
  next
    case False
    with keys' dist sub low' show ?thesis
      unfolding placed_ok_def by auto
  qed
  moreover from Cons.prems have "set ns \<subseteq> K" by simp
  ultimately have "\<exists>deg' q'. relax ns (?deg, ?q) = Inr (deg', q') \<and> placed_ok K deg' (order @ q')"
    by (rule Cons.IH)
  with d show ?case by simp
qed

lemma neighbors_subset:
  assumes "adj_ok K adj" and "set_iter_ok set_iter"
  shows "set (neighbors set_iter adj node) \<subseteq> K"
proof (cases "map_of adj node")
  case None
  then show ?thesis by (simp add: neighbors_def)
next
  case (Some s)
  from assms(2) have "set (set_iter s) = set s"
    unfolding set_iter_ok_def by (metis set_mset_mset)
  with Some assms(1) show ?thesis
    by (auto simp: neighbors_def adj_ok_def)
qed

lemma kahn_placed:
  assumes "placed_ok K deg (order @ queue)" and "adj_ok K adj" and "set_iter_ok set_iter"
  shows "\<exists>res. kahn set_iter adj deg queue order = Inr res \<and> distinct res \<and> set res \<subseteq> K"
  using assms
proof (induction set_iter adj deg queue order rule: kahn.induct)
  case (1 set_iter adj in_degree order)
  then show ?case by (simp add: placed_ok_def)
next
  case (2 set_iter adj in_degree node queue order)
  from "2.prems"(1) have "placed_ok K in_degree ((order @ [node]) @ queue)"
    by simp
  moreover have "set (neighbors set_iter adj node) \<subseteq> K"
    using "2.prems"(2,3) by (rule neighbors_subset)
  ultimately obtain deg' q' where
    r: "relax (neighbors set_iter adj node) (in_degree, queue) = Inr (deg', q')"
    and p: "placed_ok K deg' ((order @ [node]) @ q')"
    using relax_placed by blast
  from "2.IH" [OF r refl p "2.prems"(2,3)] r show ?case
    by simp
qed

lemma distinct_then_rest:
  assumes "distinct xs" and "distinct ys" and "set xs \<subseteq> set ys"
  shows "mset (xs @ filter (\<lambda>t. t \<notin> set xs) ys) = mset ys"
proof -
  have "distinct (xs @ filter (\<lambda>t. t \<notin> set xs) ys)"
    using assms by auto
  moreover have "set (xs @ filter (\<lambda>t. t \<notin> set xs) ys) = set ys"
    using assms by auto
  ultimately show ?thesis
    using assms(2) by (metis set_eq_iff_mset_eq_distinct)
qed

text \<open>
  C3. For a graph whose table dictionary has each id once (as every dictionary has),
  and whatever order the successor sets are visited in, \<open>get_execution_order\<close> raises
  nothing and returns a permutation of the table ids: every id once, none missing,
  with or without cycles and duplicate edges.
\<close>

theorem execution_order_is_permutation:
  assumes "dict_ok (tables g)" and "set_iter_ok set_iter"
  shows "\<exists>order. get_execution_order set_iter g = Inr order
           \<and> mset order = mset (map fst (tables g))"
proof -
  obtain adj deg where b: "build_graph g = (adj, deg)"
    by (cases "build_graph g")
  note props = build_graph_props [OF b]
  let ?K = "fst ` set (tables g)"
  let ?queue = "map fst (filter (\<lambda>(node, deg). deg = 0) deg)"
  have "distinct ?queue"
    using props(3) by (simp add: distinct_map_filter)
  moreover have "\<forall>v \<in> set ?queue. map_of deg v = Some 0"
    using props(3) by auto
  moreover have "set ?queue \<subseteq> ?K"
    using props(2) by auto
  ultimately have "placed_ok ?K deg ([] @ ?queue)"
    using props(2) by (auto simp: placed_ok_def)
  from kahn_placed [OF this props(4) assms(2)]
  obtain res where res: "kahn set_iter adj deg ?queue [] = Inr res"
    and d: "distinct res" and s: "set res \<subseteq> ?K"
    by blast
  from assms(1) have "distinct (map fst (tables g))"
    by (simp add: dict_ok_def)
  with d s have "mset (res @ filter (\<lambda>t. t \<notin> set res) (map fst (tables g)))
                   = mset (map fst (tables g))"
    by (intro distinct_then_rest) simp_all
  with b res show ?thesis
    by (simp add: get_execution_order_def)
qed

theorem execution_order_is_permutation_witness:
  "dict_ok (tables cycle_graph) \<and> set_iter_ok rev
   \<and> (\<exists>order. get_execution_order rev cycle_graph = Inr order
          \<and> mset order = mset (map fst (tables cycle_graph)))"
proof -
  have d: "dict_ok (tables cycle_graph)"
    by (simp add: dict_ok_def cycle_graph_def example_node_def)
  have i: "set_iter_ok rev"
    by (simp add: set_iter_ok_def)
  from execution_order_is_permutation [OF d i] d i show ?thesis
    by simp
qed

lemma tt_edges_accepted:
  "tt_edges g = {(lower (e_source e), lower (e_target e)) | e.
                   e \<in> set (edges g) \<and> accepted (fst ` set (tables g)) e}"
  by (auto simp: tt_edges_def accepted_def)

lemma build_edge_step:
  assumes "build_edge e (adj0, deg0) = (adj1, deg1)"
    and "fst ` set adj0 = K" and "fst ` set deg0 = K"
  shows "set (successors adj1 u)
           = set (successors adj0 u)
             \<union> (if accepted K e \<and> lower (e_source e) = u then {lower (e_target e)} else {})"
    and "distinct (successors adj0 u) \<Longrightarrow> distinct (successors adj1 u)"
    and "the (map_of deg1 v)
           = the (map_of deg0 v) + (if accepted K e \<and> lower (e_target e) = v then 1 else 0)"
proof -
  have "set (successors adj1 u)
           = set (successors adj0 u)
             \<union> (if accepted K e \<and> lower (e_source e) = u then {lower (e_target e)} else {})
        \<and> (distinct (successors adj0 u) \<longrightarrow> distinct (successors adj1 u))
        \<and> the (map_of deg1 v)
           = the (map_of deg0 v) + (if accepted K e \<and> lower (e_target e) = v then 1 else 0)"
  proof (cases rule: build_edge_cases [where e = e and adj = adj0 and deg = deg0])
    case skip
    from skip(2) assms(2,3) have "\<not> accepted K e"
      by (auto simp: accepted_def)
    with skip(1) assms(1) show ?thesis by simp
  next
    case (add targets d)
    from add(2) have "lower (e_source e) \<in> fst ` set adj0" by (rule map_of_Some_key)
    moreover from add(3) have "lower (e_target e) \<in> fst ` set deg0" by (rule map_of_Some_key)
    ultimately have acc: "accepted K e"
      using add(1) assms(2,3) by (simp add: accepted_def)
    from assms(1) add(4)
    have adj1: "adj1 = AList.update (lower (e_source e)) (set_add (lower (e_target e)) targets) adj0"
      and deg1: "deg1 = AList.update (lower (e_target e)) (d + 1) deg0"
      by simp_all
    have s0: "successors adj0 (lower (e_source e)) = targets"
      using add(2) by (simp add: successors_def)
    have s1: "successors adj1 u
               = (if u = lower (e_source e) then set_add (lower (e_target e)) targets
                  else successors adj0 u)"
      by (simp add: successors_def adj1 update_conv')
    have d1: "the (map_of deg1 v)
               = (if v = lower (e_target e) then d + 1 else the (map_of deg0 v))"
      by (simp add: deg1 update_conv')
    show ?thesis
      using acc s0 add(3) by (auto simp: s1 d1 set_add_def)
  qed
  then show "set (successors adj1 u)
           = set (successors adj0 u)
             \<union> (if accepted K e \<and> lower (e_source e) = u then {lower (e_target e)} else {})"
    and "distinct (successors adj0 u) \<Longrightarrow> distinct (successors adj1 u)"
    and "the (map_of deg1 v)
           = the (map_of deg0 v) + (if accepted K e \<and> lower (e_target e) = v then 1 else 0)"
    by simp_all
qed

lemma build_edges_result:
  assumes "fold build_edge es (adj0, deg0) = (adj, deg)"
    and "fst ` set adj0 = K" and "fst ` set deg0 = K"
  shows "set (successors adj u)
           = set (successors adj0 u)
             \<union> {lower (e_target e) | e. e \<in> set es \<and> accepted K e \<and> lower (e_source e) = u}
       \<and> (distinct (successors adj0 u) \<longrightarrow> distinct (successors adj u))
       \<and> the (map_of deg v)
           = the (map_of deg0 v)
             + int (length (filter (\<lambda>e. accepted K e \<and> lower (e_target e) = v) es))"
  using assms
proof (induction es arbitrary: adj0 deg0)
  case Nil
  then show ?case by simp
next
  case (Cons e es)
  obtain adj1 deg1 where step: "build_edge e (adj0, deg0) = (adj1, deg1)"
    by (cases "build_edge e (adj0, deg0)")
  note keys = build_edge_keys(1,2) [OF step]
  have k1: "fst ` set adj1 = K"
    using same_keys [OF keys(1)] Cons.prems(2) by simp
  have k2: "fst ` set deg1 = K"
    using same_keys [OF keys(2)] Cons.prems(3) by simp
  from Cons.prems(1) have "fold build_edge es (adj1, deg1) = (adj, deg)"
    by (simp add: step)
  note ih = Cons.IH [OF this k1 k2]
  note st = build_edge_step(1) [OF step Cons.prems(2,3), of u]
    build_edge_step(2) [OF step Cons.prems(2,3), of u]
    build_edge_step(3) [OF step Cons.prems(2,3), of v]
  have "set (successors adj u)
           = set (successors adj0 u)
             \<union> {lower (e_target x) | x. x \<in> set (e # es) \<and> accepted K x \<and> lower (e_source x) = u}"
    using ih st(1) by auto
  moreover have "distinct (successors adj0 u) \<longrightarrow> distinct (successors adj u)"
    using ih st(2) by blast
  moreover have "the (map_of deg v)
           = the (map_of deg0 v)
             + int (length (filter (\<lambda>e. accepted K e \<and> lower (e_target e) = v) (e # es)))"
    using ih st(3) by simp
  ultimately show ?case by blast
qed

text \<open>With pairwise different edge keys, the accepted edges into \<open>v\<close> are as many as
  the sources they come from.\<close>

lemma accepted_count:
  assumes "distinct (map edge_key es)"
  shows "length (filter (\<lambda>e. accepted K e \<and> lower (e_target e) = v) es)
           = card {lower (e_source e) | e. e \<in> set es \<and> accepted K e \<and> lower (e_target e) = v}"
proof -
  let ?fs = "filter (\<lambda>e. accepted K e \<and> lower (e_target e) = v) es"
  from assms have d: "distinct es" and inj: "inj_on edge_key (set es)"
    by (simp_all add: distinct_map)
  have "inj_on (\<lambda>e. lower (e_source e)) (set ?fs)"
  proof (rule inj_onI)
    fix a b assume a: "a \<in> set ?fs" and b: "b \<in> set ?fs"
      and eq: "lower (e_source a) = lower (e_source b)"
    then have "edge_key a = edge_key b"
      by (simp add: edge_key_def accepted_def)
    with inj a b show "a = b"
      by (auto dest: inj_onD)
  qed
  with d have "distinct (map (\<lambda>e. lower (e_source e)) ?fs)"
    by (simp add: distinct_map)
  then have "card (set (map (\<lambda>e. lower (e_source e)) ?fs)) = length ?fs"
    using distinct_card by fastforce
  moreover have "set (map (\<lambda>e. lower (e_source e)) ?fs)
      = {lower (e_source e) | e. e \<in> set es \<and> accepted K e \<and> lower (e_target e) = v}"
    by auto
  ultimately show ?thesis by simp
qed

text \<open>What \<open>build_graph\<close> computes: the successor sets are the dependency relation, and
  with pairwise different edge keys the in-degree of a table is the number of its
  predecessors.\<close>

lemma build_graph_relation:
  assumes "build_graph g = (adj, deg)"
  shows "set (successors adj u) = {v. (u, v) \<in> tt_edges g}"
    and "distinct (successors adj u)"
    and "distinct (map edge_key (edges g)) \<Longrightarrow> v \<in> fst ` set (tables g)
         \<Longrightarrow> map_of deg v = Some (int (card {u. (u, v) \<in> tt_edges g}))"
proof -
  let ?K = "fst ` set (tables g)"
  obtain adj0 deg0 where b: "build_nodes (tables g) = (adj0, deg0)"
    by (cases "build_nodes (tables g)")
  note n = build_nodes_props [OF b]
  from assms b have f: "fold build_edge (edges g) (adj0, deg0) = (adj, deg)"
    by (simp add: build_graph_def)
  note r = build_edges_result [OF f n(1) n(2)]
  have s0: "successors adj0 w = []" for w
  proof (cases "map_of adj0 w")
    case None
    then show ?thesis by (simp add: successors_def)
  next
    case (Some s)
    then have "(w, s) \<in> set adj0" by (rule map_of_SomeD)
    with n(5) have "s = []" by force
    with Some show ?thesis by (simp add: successors_def)
  qed
  show "set (successors adj u) = {v. (u, v) \<in> tt_edges g}"
    using r [of u v] by (auto simp: s0 tt_edges_accepted)
  show "distinct (successors adj u)"
    using r [of u v] by (simp add: s0)
  show "map_of deg v = Some (int (card {u. (u, v) \<in> tt_edges g}))"
    if dist: "distinct (map edge_key (edges g))" and v: "v \<in> ?K"
  proof -
    from v n(2) obtain d0 where "(v, d0) \<in> set deg0" by force
    with n(6) have "(v, 0) \<in> set deg0" by force
    with n(4) have z: "map_of deg0 v = Some 0" by simp
    from v build_graph_props(2) [OF assms] obtain d where d: "map_of deg v = Some d"
      by (metis domD dom_map_of_conv_image_fst)
    have "{lower (e_source e) | e. e \<in> set (edges g) \<and> accepted ?K e \<and> lower (e_target e) = v}
            = {u. (u, v) \<in> tt_edges g}"
      by (auto simp: tt_edges_accepted)
    with r [of u v] z d accepted_count [OF dist, of ?K v] show ?thesis
      by simp
  qed
qed

lemma index_of_append_in: "x \<in> set xs \<Longrightarrow> index_of (xs @ ys) x = index_of xs x"
  by (induction xs) auto

lemma index_of_append_out: "x \<notin> set xs \<Longrightarrow> index_of (xs @ ys) x = length xs + index_of ys x"
  by (induction xs) auto

lemma index_of_less: "x \<in> set xs \<Longrightarrow> index_of xs x < length xs"
  by (induction xs) auto

lemma pending_step:
  assumes "finite K" and "node \<in> K" and "node \<notin> set order"
  shows "pending adj K order v
           = pending adj K (order @ [node]) v
             + (if v \<in> set (successors adj node) then 1 else 0)"
proof -
  let ?A = "{u \<in> K. u \<notin> set (order @ [node]) \<and> v \<in> set (successors adj u)}"
  have fin: "finite ?A" using assms(1) by simp
  show ?thesis
  proof (cases "v \<in> set (successors adj node)")
    case True
    with assms(2,3)
    have "{u \<in> K. u \<notin> set order \<and> v \<in> set (successors adj u)} = insert node ?A"
      by auto
    moreover have "node \<notin> ?A" by simp
    ultimately show ?thesis
      using fin True by (simp add: pending_def)
  next
    case False
    then have "{u \<in> K. u \<notin> set order \<and> v \<in> set (successors adj u)} = ?A"
      by auto
    with False show ?thesis by (simp add: pending_def)
  qed
qed

lemma relax_invD:
  assumes "relax_inv K adj deg q order rest"
  shows "fst ` set deg = K" and "distinct (order @ q)" and "set (order @ q) \<subseteq> K"
    and "v \<in> K \<Longrightarrow> map_of deg v
           = Some (int (pending adj K order v) + (if v \<in> set rest then 1 else 0))"
    and "v \<in> K \<Longrightarrow> (pending adj K order v = 0 \<and> v \<notin> set rest) \<longleftrightarrow> v \<in> set (order @ q)"
proof -
  from assms have all: "fst ` set deg = K \<and> distinct (order @ q) \<and> set (order @ q) \<subseteq> K
      \<and> (\<forall>v \<in> K. map_of deg v
                     = Some (int (pending adj K order v) + (if v \<in> set rest then 1 else 0)))
      \<and> (\<forall>v \<in> K. (pending adj K order v = 0 \<and> v \<notin> set rest) \<longleftrightarrow> v \<in> set (order @ q))"
    unfolding relax_inv_def .
  note a = all [THEN conjunct1]
    and b = all [THEN conjunct2, THEN conjunct1]
    and c = all [THEN conjunct2, THEN conjunct2, THEN conjunct1]
    and d = all [THEN conjunct2, THEN conjunct2, THEN conjunct2, THEN conjunct1]
    and e = all [THEN conjunct2, THEN conjunct2, THEN conjunct2, THEN conjunct2]
  show "fst ` set deg = K" by (rule a)
  show "distinct (order @ q)" by (rule b)
  show "set (order @ q) \<subseteq> K" by (rule c)
  show "v \<in> K \<Longrightarrow> map_of deg v
           = Some (int (pending adj K order v) + (if v \<in> set rest then 1 else 0))"
    using d by (rule bspec)
  show "v \<in> K \<Longrightarrow> (pending adj K order v = 0 \<and> v \<notin> set rest) \<longleftrightarrow> v \<in> set (order @ q)"
    using e by (rule bspec)
qed

lemma relax_counts:
  assumes "relax_inv K adj deg q order ns" and "distinct ns" and "set ns \<subseteq> K"
  shows "\<exists>deg' q'. relax ns (deg, q) = Inr (deg', q') \<and> relax_inv K adj deg' q' order []"
  using assms
proof (induction ns arbitrary: deg q)
  case Nil
  then show ?case by simp
next
  case (Cons n ns)
  note inv = relax_invD [OF Cons.prems(1)]
  from Cons.prems(2,3) have nK: "n \<in> K" and nns: "n \<notin> set ns" and d': "distinct ns"
    and s': "set ns \<subseteq> K"
    by simp_all
  define p where "p = pending adj K order n"
  define deg1 where "deg1 = AList.update n (int p) deg"
  define q1 where "q1 = (if p = 0 then q @ [n] else q)"
  have d: "map_of deg n = Some (int p + 1)"
    using inv(4) [OF nK] by (simp add: p_def)
  have fresh: "n \<notin> set (order @ q)"
    using inv(5) [OF nK] by simp
  have step: "relax (n # ns) (deg, q) = relax ns (deg1, q1)"
    using d by (simp add: deg1_def q1_def)
  have q1_set: "set q1 = (if p = 0 then insert n (set q) else set q)"
    by (simp add: q1_def)
  have "relax_inv K adj deg1 q1 order ns"
    unfolding relax_inv_def
  proof (intro conjI ballI)
    show "fst ` set deg1 = K"
      using inv(1) nK by (auto simp: deg1_def dom_update)
    show "distinct (order @ q1)"
      using inv(2) fresh by (simp add: q1_def)
    show "set (order @ q1) \<subseteq> K"
      using inv(3) nK by (simp add: q1_def)
  next
    fix v assume v: "v \<in> K"
    show "map_of deg1 v
            = Some (int (pending adj K order v) + (if v \<in> set ns then 1 else 0))"
    proof (cases "v = n")
      case True
      with nns show ?thesis by (simp add: deg1_def update_conv' p_def)
    next
      case False
      with inv(4) [OF v] show ?thesis by (simp add: deg1_def update_conv')
    qed
  next
    fix v assume v: "v \<in> K"
    show "(pending adj K order v = 0 \<and> v \<notin> set ns) \<longleftrightarrow> v \<in> set (order @ q1)"
    proof (cases "v = n")
      case True
      show ?thesis
      proof (cases "p = 0")
        case z: True
        with True nns show ?thesis by (simp add: q1_set p_def)
      next
        case nz: False
        with True fresh show ?thesis by (simp add: q1_set p_def)
      qed
    next
      case False
      with inv(5) [OF v] show ?thesis by (simp add: q1_set)
    qed
  qed
  from Cons.IH [OF this d' s'] show ?case
    unfolding step .
qed

lemma relax_inv_start:
  assumes inv: "relax_inv K adj deg (node # queue) order []" and fin: "finite K"
    and ns: "set ns = set (successors adj node)"
  shows "relax_inv K adj deg queue (order @ [node]) ns"
proof -
  note d = relax_invD [OF inv]
  have keys: "fst ` set deg = K" and dist: "distinct (order @ node # queue)"
    and sub: "set (order @ node # queue) \<subseteq> K"
    by (rule d)+
  have cnt: "map_of deg v = Some (int (pending adj K order v))" if "v \<in> K" for v
    using d(4) [OF that] by simp
  have zero: "pending adj K order v = 0 \<longleftrightarrow> v \<in> set (order @ node # queue)" if "v \<in> K" for v
    using d(5) [OF that] by simp
  from sub dist have nK: "node \<in> K" and nO: "node \<notin> set order"
    by auto
  note step = pending_step [OF fin nK nO, of adj]
  show ?thesis
    unfolding relax_inv_def
  proof (intro conjI ballI)
    show "fst ` set deg = K" by (rule keys)
    show "distinct ((order @ [node]) @ queue)" using dist by simp
    show "set ((order @ [node]) @ queue) \<subseteq> K" using sub by simp
  next
    fix v assume v: "v \<in> K"
    show "map_of deg v
            = Some (int (pending adj K (order @ [node]) v) + (if v \<in> set ns then 1 else 0))"
      using cnt [OF v] step [of v] ns by simp
  next
    fix v assume v: "v \<in> K"
    show "(pending adj K (order @ [node]) v = 0 \<and> v \<notin> set ns)
            \<longleftrightarrow> v \<in> set ((order @ [node]) @ queue)"
      using zero [OF v] step [of v] ns by auto
  qed
qed

lemma predecessors_step:
  assumes inv: "relax_inv K adj deg (node # queue) order []" and fin: "finite K"
    and res: "comes_after_predecessors adj K order"
  shows "comes_after_predecessors adj K (order @ [node])"
proof -
  note d = relax_invD [OF inv]
  have dist: "distinct (order @ node # queue)" and sub: "set (order @ node # queue) \<subseteq> K"
    by (rule d)+
  have zero: "pending adj K order v = 0 \<longleftrightarrow> v \<in> set (order @ node # queue)" if "v \<in> K" for v
    using d(5) [OF that] by simp
  from sub dist have nK: "node \<in> K" and nO: "node \<notin> set order"
    by auto
  from zero [OF nK] have "pending adj K order node = 0" by simp
  with fin have none: "{u \<in> K. u \<notin> set order \<and> node \<in> set (successors adj u)} = {}"
    by (simp add: pending_def)
  show ?thesis
    unfolding comes_after_predecessors_def
  proof (intro ballI impI)
    fix u v assume u: "u \<in> K" and v: "v \<in> set (successors adj u)"
      and vo: "v \<in> set (order @ [node])"
    show "u \<in> set (order @ [node])
          \<and> index_of (order @ [node]) u < index_of (order @ [node]) v"
    proof (cases "v \<in> set order")
      case True
      with res u v have "u \<in> set order" and "index_of order u < index_of order v"
        unfolding comes_after_predecessors_def by blast+
      with True show ?thesis by (simp add: index_of_append_in)
    next
      case False
      with vo have vn: "v = node" by simp
      with none u v have uo: "u \<in> set order" by blast
      then have "index_of (order @ [node]) u < length order"
        by (simp add: index_of_append_in index_of_less)
      moreover have "index_of (order @ [node]) node = length order"
        using nO by (simp add: index_of_append_out)
      ultimately show ?thesis using uo vn by simp
    qed
  qed
qed

lemma neighbors_successors:
  assumes "set_iter_ok set_iter"
  shows "mset (neighbors set_iter adj node) = mset (successors adj node)"
proof (cases "map_of adj node")
  case None
  then show ?thesis by (simp add: neighbors_def successors_def)
next
  case (Some s)
  from assms have "mset (set_iter s) = mset s"
    unfolding set_iter_ok_def by (rule spec)
  with Some show ?thesis by (simp add: neighbors_def successors_def)
qed

lemma kahn_counts:
  assumes "relax_inv K adj deg queue order []" and "comes_after_predecessors adj K order" and "finite K"
    and "\<And>u. set (successors adj u) \<subseteq> K" and "\<And>u. distinct (successors adj u)"
    and "set_iter_ok set_iter"
  shows "\<exists>res deg'. kahn set_iter adj deg queue order = Inr res
           \<and> relax_inv K adj deg' [] res [] \<and> comes_after_predecessors adj K res"
  using assms
proof (induction set_iter adj deg queue order rule: kahn.induct)
  case (1 set_iter adj in_degree order)
  have "kahn set_iter adj in_degree [] order = Inr order"
    by simp
  with "1.prems"(1,2) show ?case by blast
next
  case (2 set_iter adj in_degree node queue order)
  let ?ns = "neighbors set_iter adj node"
  have m: "mset ?ns = mset (successors adj node)"
    using "2.prems"(6) by (rule neighbors_successors)
  then have sn: "set ?ns = set (successors adj node)"
    by (rule mset_eq_setD)
  have dn: "distinct ?ns"
    using mset_eq_imp_distinct_iff [OF m] "2.prems"(5) [of node] by blast
  from sn "2.prems"(4) [of node] have kn: "set ?ns \<subseteq> K"
    by simp
  have "relax_inv K adj in_degree queue (order @ [node]) ?ns"
    using "2.prems"(1,3) sn by (rule relax_inv_start)
  from relax_counts [OF this dn kn] obtain deg' q' where
    r: "relax ?ns (in_degree, queue) = Inr (deg', q')"
    and i: "relax_inv K adj deg' q' (order @ [node]) []"
    by blast
  have "comes_after_predecessors adj K (order @ [node])"
    using "2.prems"(1,3,2) by (rule predecessors_step)
  from "2.IH" [OF r refl i this "2.prems"(3,4,5,6)] r show ?case
    by simp
qed

text \<open>In a finite relation, a set in which every element has a predecessor in the set
  lies on or after cycles.\<close>

lemma unplaced_after_cycle:
  assumes fin: "finite R" and pre: "\<And>z. z \<in> U \<Longrightarrow> \<exists>y \<in> U. (y, z) \<in> R" and x: "x \<in> U"
  shows "\<exists>c. (c, c) \<in> R\<^sup>+ \<and> (c, x) \<in> R\<^sup>*"
proof (rule ccontr)
  assume no: "\<not> (\<exists>c. (c, c) \<in> R\<^sup>+ \<and> (c, x) \<in> R\<^sup>*)"
  define A where "A = {y \<in> U. (y, x) \<in> R\<^sup>*}"
  define R' where "R' = {(a, b) \<in> R. a \<in> A \<and> b \<in> A}"
  have sub: "R' \<subseteq> R"
    by (auto simp: R'_def)
  with fin have "finite R'"
    by (rule rev_finite_subset)
  moreover have "acyclic R'"
    unfolding acyclic_def
  proof (intro allI notI)
    fix c assume c: "(c, c) \<in> R'\<^sup>+"
    then have "(c, c) \<in> R\<^sup>+"
      using sub by (rule trancl_mono)
    moreover from c obtain z where "(c, z) \<in> R'"
      by (blast dest: tranclD)
    then have "(c, x) \<in> R\<^sup>*"
      by (simp add: R'_def A_def)
    ultimately show False
      using no by blast
  qed
  ultimately have "wf R'"
    by (rule finite_acyclic_wf)
  moreover from x have "x \<in> A"
    by (simp add: A_def)
  ultimately have "\<exists>z \<in> A. \<forall>y. (y, z) \<in> R' \<longrightarrow> y \<notin> A"
    unfolding wf_eq_minimal by blast
  then obtain z where z: "z \<in> A" and min: "\<And>y. (y, z) \<in> R' \<Longrightarrow> y \<notin> A"
    by blast
  from z have zU: "z \<in> U" and zx: "(z, x) \<in> R\<^sup>*"
    by (simp_all add: A_def)
  from pre [OF zU] obtain y where yU: "y \<in> U" and yz: "(y, z) \<in> R"
    by blast
  from yz zx have "(y, x) \<in> R\<^sup>*"
    by (rule converse_rtrancl_into_rtrancl)
  with yU have yA: "y \<in> A"
    by (simp add: A_def)
  with yz z have "(y, z) \<in> R'"
    by (simp add: R'_def)
  from min [OF this] yA show False
    by contradiction
qed

lemma finite_tt_edges: "finite (tt_edges g)"
proof -
  have "tt_edges g \<subseteq> (\<lambda>e. (lower (e_source e), lower (e_target e))) ` set (edges g)"
    by (auto simp: tt_edges_def)
  then show ?thesis
    by (rule finite_subset) simp
qed

lemma tt_edges_list:
  "tt_edges g = set (map (\<lambda>e. (lower (e_source e), lower (e_target e)))
                      (filter (accepted (fst ` set (tables g))) (edges g)))"
  by (auto simp: tt_edges_def accepted_def)

lemma tt_edges_registered:
  "(a, b) \<in> tt_edges g \<Longrightarrow> a \<in> fst ` set (tables g) \<and> b \<in> fst ` set (tables g)"
  by (auto simp: tt_edges_def)

text \<open>What Kahn's loop leaves when the edge keys are pairwise different: the tables it
  placed, each once and after its predecessors, and every table it did not place has
  a predecessor it did not place either.\<close>

lemma kahn_result:
  assumes b: "build_graph g = (adj, deg)" and it: "set_iter_ok set_iter"
    and dist: "distinct (map edge_key (edges g))"
  shows "\<exists>res. kahn set_iter adj deg (map fst (filter (\<lambda>(node, d). d = 0) deg)) [] = Inr res
           \<and> set res \<subseteq> fst ` set (tables g)
           \<and> comes_after_predecessors adj (fst ` set (tables g)) res
           \<and> (\<forall>z \<in> fst ` set (tables g) - set res.
                 \<exists>y \<in> fst ` set (tables g) - set res. (y, z) \<in> tt_edges g)"
proof -
  let ?K = "fst ` set (tables g)"
  let ?R = "tt_edges g"
  let ?queue = "map fst (filter (\<lambda>(node, d). d = 0) deg)"
  note props = build_graph_props [OF b]
  note rel = build_graph_relation [OF b]
  have finK: "finite ?K" by simp
  have succK: "set (successors adj w) \<subseteq> ?K" for w
    using rel(1) [of w] tt_edges_registered [of w _ g] by auto
  have pend0: "pending adj ?K [] z = card {y. (y, z) \<in> ?R}" for z
  proof -
    have "{y \<in> ?K. y \<notin> set [] \<and> z \<in> set (successors adj y)} = {y. (y, z) \<in> ?R}"
      using rel(1) tt_edges_registered [of _ z g] by auto
    then show ?thesis by (simp add: pending_def)
  qed
  have cnt: "map_of deg z = Some (int (pending adj ?K [] z))" if "z \<in> ?K" for z
    using rel(3) [OF dist that] by (simp add: pend0)
  have queue: "z \<in> set ?queue \<longleftrightarrow> map_of deg z = Some 0" for z
  proof
    assume "z \<in> set ?queue"
    then have "(z, 0) \<in> set deg" by auto
    with props(3) show "map_of deg z = Some 0" by simp
  next
    assume "map_of deg z = Some 0"
    then have "(z, 0) \<in> set deg" by (rule map_of_SomeD)
    then show "z \<in> set ?queue" by force
  qed
  have "relax_inv ?K adj deg ?queue [] []"
    unfolding relax_inv_def
  proof (intro conjI ballI)
    show "fst ` set deg = ?K" by (rule props(2))
    show "distinct ([] @ ?queue)"
      using props(3) by (simp add: distinct_map_filter)
    show "set ([] @ ?queue) \<subseteq> ?K"
      using props(2) by auto
  next
    fix z assume z: "z \<in> ?K"
    show "map_of deg z = Some (int (pending adj ?K [] z) + (if z \<in> set [] then 1 else 0))"
      using cnt [OF z] by simp
    show "(pending adj ?K [] z = 0 \<and> z \<notin> set []) \<longleftrightarrow> z \<in> set ([] @ ?queue)"
      using cnt [OF z] queue [of z] by simp
  qed
  moreover have "comes_after_predecessors adj ?K []"
    by (simp add: comes_after_predecessors_def)
  ultimately obtain res deg' where res: "kahn set_iter adj deg ?queue [] = Inr res"
    and inv: "relax_inv ?K adj deg' [] res []"
    and after: "comes_after_predecessors adj ?K res"
    using kahn_counts [OF _ _ finK succK rel(2) it] by blast
  note d = relax_invD [OF inv]
  have "\<exists>y \<in> ?K - set res. (y, z) \<in> ?R" if z: "z \<in> ?K - set res" for z
  proof -
    from z d(5) [of z] have "pending adj ?K res z \<noteq> 0"
      by simp
    then have "{y \<in> ?K. y \<notin> set res \<and> z \<in> set (successors adj y)} \<noteq> {}"
      by (auto simp: pending_def)
    then obtain y where "y \<in> ?K" and "y \<notin> set res" and "z \<in> set (successors adj y)"
      by blast
    with rel(1) [of y] show ?thesis by auto
  qed
  with res d(3) after show ?thesis
    by auto
qed

text \<open>
  C1 as stated fails in two ways. In \<open>cycle_graph\<close> the edge from \<open>a\<close> to \<open>b\<close> is on no
  cycle (\<open>b\<close> does not reach \<open>a\<close>), but \<open>a\<close> feeds itself, no table has in-degree 0, and
  the tables come out in registration order, \<open>b\<close> before \<open>a\<close>. In \<open>duplicate_graph\<close>
  there is no cycle, but the edge from \<open>a\<close> to \<open>b\<close> is stored twice, the in-degree of
  \<open>b\<close> never reaches 0, and \<open>c\<close> comes out before \<open>b\<close> against the edge from \<open>b\<close> to \<open>c\<close>.
\<close>

theorem execution_order_counterexample:
  "(''a'', ''b'') \<in> tt_edges cycle_graph
   \<and> (''b'', ''a'') \<notin> (tt_edges cycle_graph)\<^sup>*
   \<and> get_execution_order id cycle_graph = Inr [''b'', ''a'']
   \<and> \<not> index_of [''b'', ''a''] ''a'' < index_of [''b'', ''a''] ''b''
   \<and> (''b'', ''c'') \<in> tt_edges duplicate_graph
   \<and> (''c'', ''b'') \<notin> (tt_edges duplicate_graph)\<^sup>*
   \<and> get_execution_order id duplicate_graph = Inr [''a'', ''c'', ''b'']
   \<and> \<not> index_of [''a'', ''c'', ''b''] ''b'' < index_of [''a'', ''c'', ''b''] ''c''"
proof -
  have la: "lower ''a'' = ''a''" and lb: "lower ''b'' = ''b''" and lc: "lower ''c'' = ''c''"
    by code_simp+
  have r1: "tt_edges cycle_graph = {(''a'', ''a''), (''a'', ''b'')}"
    by (simp add: tt_edges_list accepted_def cycle_graph_def example_edge_def example_node_def
          la lb)
  have r2: "tt_edges duplicate_graph = {(''a'', ''b''), (''b'', ''c'')}"
    by (simp add: tt_edges_list accepted_def duplicate_graph_def example_edge_def
          example_node_def la lb lc)
  have n1: "(''b'', ''a'') \<notin> (tt_edges cycle_graph)\<^sup>*"
  proof
    assume "(''b'', ''a'') \<in> (tt_edges cycle_graph)\<^sup>*"
    then show False
      by (rule converse_rtranclE) (simp_all add: r1)
  qed
  have n2: "(''c'', ''b'') \<notin> (tt_edges duplicate_graph)\<^sup>*"
  proof
    assume "(''c'', ''b'') \<in> (tt_edges duplicate_graph)\<^sup>*"
    then show False
      by (rule converse_rtranclE) (simp_all add: r2)
  qed
  have o1: "get_execution_order id cycle_graph = Inr [''b'', ''a'']"
    by code_simp
  have o2: "get_execution_order id duplicate_graph = Inr [''a'', ''c'', ''b'']"
    by code_simp
  from n1 n2 o1 o2 show ?thesis
    by (simp add: r1 r2)
qed

text \<open>
  C1, amended. For a graph whose table dictionary has each id once and whose edge list
  holds no two edges with the same dedup key (as every graph built by \<open>add_edge\<close> and
  \<open>merge\<close>), and whatever order the successor sets are visited in: for every
  table-to-table edge from \<open>u\<close> to \<open>v\<close> between registered tables whose source \<open>u\<close> is
  neither on a cycle nor reachable from one, \<open>u\<close> comes before \<open>v\<close> in the returned
  order.
\<close>

theorem execution_order_respects_edges:
  assumes "dict_ok (tables g)" and "set_iter_ok set_iter"
    and "distinct (map edge_key (edges g))"
    and "(u, v) \<in> tt_edges g" and "\<not> after_cycle g u"
  shows "\<exists>order. get_execution_order set_iter g = Inr order
           \<and> index_of order u < index_of order v"
proof -
  let ?K = "fst ` set (tables g)"
  obtain adj deg where b: "build_graph g = (adj, deg)"
    by (cases "build_graph g")
  from kahn_result [OF b assms(2,3)] obtain res where
    res: "kahn set_iter adj deg (map fst (filter (\<lambda>(node, d). d = 0) deg)) [] = Inr res"
    and sub: "set res \<subseteq> ?K"
    and after: "comes_after_predecessors adj ?K res"
    and pre: "\<And>z. z \<in> ?K - set res \<Longrightarrow> \<exists>y \<in> ?K - set res. (y, z) \<in> tt_edges g"
    by blast
  let ?order = "res @ filter (\<lambda>t. t \<notin> set res) (map fst (tables g))"
  have order: "get_execution_order set_iter g = Inr ?order"
    using b res by (simp add: get_execution_order_def)
  from assms(4) have uK: "u \<in> ?K" and vK: "v \<in> ?K"
    using tt_edges_registered by blast+
  have u: "u \<in> set res"
  proof (rule ccontr)
    assume "u \<notin> set res"
    with uK have "u \<in> ?K - set res" by simp
    with unplaced_after_cycle [OF finite_tt_edges pre, of u]
    have "after_cycle g u"
      by (simp add: after_cycle_def)
    with assms(5) show False by contradiction
  qed
  from assms(4) have vs: "v \<in> set (successors adj u)"
    using build_graph_relation(1) [OF b, of u] by simp
  have "index_of ?order u < index_of ?order v"
  proof (cases "v \<in> set res")
    case True
    with after uK vs have "index_of res u < index_of res v"
      unfolding comes_after_predecessors_def by blast
    with u True show ?thesis
      by (simp add: index_of_append_in)
  next
    case False
    from u have "index_of ?order u < length res"
      by (simp add: index_of_append_in index_of_less)
    with False show ?thesis
      by (simp add: index_of_append_out)
  qed
  with order show ?thesis by blast
qed

theorem execution_order_respects_edges_witness:
  "dict_ok (tables diamond_graph) \<and> set_iter_ok rev
   \<and> distinct (map edge_key (edges diamond_graph))
   \<and> (''a'', ''b'') \<in> tt_edges diamond_graph
   \<and> \<not> after_cycle diamond_graph ''a''
   \<and> (\<exists>order. get_execution_order rev diamond_graph = Inr order
          \<and> index_of order ''a'' < index_of order ''b'')"
proof -
  have la: "lower ''a'' = ''a''" and lb: "lower ''b'' = ''b''" and lc: "lower ''c'' = ''c''"
    and ld: "lower ''d'' = ''d''"
    by code_simp+
  have r: "tt_edges diamond_graph
             = {(''a'', ''b''), (''a'', ''c''), (''b'', ''d''), (''c'', ''d'')}"
    by (simp add: tt_edges_list accepted_def diamond_graph_def example_edge_def
          example_node_def la lb lc ld)
  have h1: "dict_ok (tables diamond_graph)"
    by (simp add: dict_ok_def diamond_graph_def example_node_def)
  have h2: "set_iter_ok rev"
    by (simp add: set_iter_ok_def)
  have h3: "distinct (map edge_key (edges diamond_graph))"
    by code_simp
  have h4: "(''a'', ''b'') \<in> tt_edges diamond_graph"
    by (simp add: r)
  have into: "(x, ''a'') \<notin> (tt_edges diamond_graph)\<^sup>+" for x
  proof
    assume "(x, ''a'') \<in> (tt_edges diamond_graph)\<^sup>+"
    then show False
      by (rule tranclE) (simp_all add: r)
  qed
  have h5: "\<not> after_cycle diamond_graph ''a''"
    unfolding after_cycle_def
  proof
    assume "\<exists>c. (c, c) \<in> (tt_edges diamond_graph)\<^sup>+ \<and> (c, ''a'') \<in> (tt_edges diamond_graph)\<^sup>*"
    then obtain c where cc: "(c, c) \<in> (tt_edges diamond_graph)\<^sup>+"
      and ca: "(c, ''a'') \<in> (tt_edges diamond_graph)\<^sup>*"
      by blast
    from ca have "c = ''a'' \<or> (c, ''a'') \<in> (tt_edges diamond_graph)\<^sup>+"
      by (auto simp: rtrancl_eq_or_trancl)
    with into [of c] have "c = ''a''" by blast
    with cc into [of "''a''"] show False by simp
  qed
  from execution_order_respects_edges [OF h1 h2 h3 h4 h5] h1 h2 h3 h4 h5 show ?thesis
    by blast
qed


end
